theory Spec2Isabelle
  imports Main
begin

section \<open>Pagination controller (pkg/hicli/paginate.go)\<close>

text \<open>
  \<^verbatim>\<open>PaginateServer\<close> fetches one page of history for a room and prepends it to the room's
  timeline. The storage layer, the protocol client and the event processor are external
  to the function; they are taken as a record of functions (\<open>collaborators\<close>) over an
  abstract database state \<open>'db\<close>, each of which may fail. Go's \<^verbatim>\<open>(result, error)\<close> return
  is a pair of options, a panic is a separate outcome.
\<close>

type_synonym RoomID = string
type_synonym EventID = string
type_synonym EventRowID = int
type_synonym TimelineRowID = int
type_synonym SessionID = string

datatype error =
    ErrPaginationAlreadyInProgress
  | ErrExternal string
  | Errorf string error

datatype 'a outcome = Return 'a | Panic string

record Room =
  Room_ID :: RoomID
  PrevBatch :: string
  LazyLoadSummary :: "string list option"
  SortingTimestamp :: int
  PreviewEventRowID :: EventRowID

record Event =
  RowID :: EventRowID
  Event_ID :: EventID
  TimelineRowID :: TimelineRowID
  Reactions :: "(string \<times> int) list"
  LastEditRowID :: "EventRowID option"

record TimelineRowTuple =
  Timeline :: TimelineRowID
  Tuple_Event :: EventRowID

record SessionRequest =
  Request_RoomID :: RoomID
  Request_SessionID :: SessionID

type_synonym SessionRequests = "(SessionID \<times> SessionRequest) list"

record 'evt RespMessages =
  Chunk :: "'evt list"
  End :: string

record PaginationResponse =
  Events :: "Event option list"
  HasMore :: bool

text \<open>
  The external collaborators. \<open>PrevBatchPaginationComplete\<close> is the sentinel constant of
  package \<^verbatim>\<open>database\<close>; \<open>ctx_Err\<close> is what \<^verbatim>\<open>ctx.Err()\<close> answers at the start of the
  transaction. \<open>processEvent\<close> receives the decryption queue and returns it, possibly
  extended. The two \<^verbatim>\<open>Fill\<close> functions answer the value to store in the field they fill.
\<close>

record ('db, 'evt) collaborators =
  PrevBatchPaginationComplete :: string
  Room_Get :: "'db \<Rightarrow> RoomID \<Rightarrow> error + Room option"
  Client_Messages :: "RoomID \<Rightarrow> string \<Rightarrow> int \<Rightarrow> error + 'evt RespMessages"
  Room_SetPrevBatch :: "'db \<Rightarrow> RoomID \<Rightarrow> string \<Rightarrow> error + 'db"
  ctx_Err :: "error option"
  processEvent :: "'db \<Rightarrow> 'evt \<Rightarrow> string list option \<Rightarrow> SessionRequests
                     \<Rightarrow> error + (Event \<times> SessionRequests \<times> 'db)"
  Timeline_Has :: "'db \<Rightarrow> RoomID \<Rightarrow> EventRowID \<Rightarrow> error + bool"
  SessionRequest_Put :: "'db \<Rightarrow> SessionRequest \<Rightarrow> error + 'db"
  Event_FillReactionCounts :: "'db \<Rightarrow> RoomID \<Rightarrow> Event list \<Rightarrow> error + (Event \<Rightarrow> (string \<times> int) list)"
  Event_FillLastEditRowIDs :: "'db \<Rightarrow> RoomID \<Rightarrow> Event list \<Rightarrow> error + (Event \<Rightarrow> EventRowID option)"
  Timeline_Prepend :: "'db \<Rightarrow> RoomID \<Rightarrow> EventRowID list \<Rightarrow> error + (TimelineRowTuple list \<times> 'db)"
  Txn_Commit :: "'db \<Rightarrow> error + 'db"

text \<open>
  The client: the single-flight map, the database, and counters and logs of the effects
  the function has outside the database (requests to the server, batches handed to the
  timeline prepend, wakeups of the decryption queue).
\<close>

record 'db HiClient =
  paginationInterrupter :: "RoomID \<rightharpoonup> unit"
  DB :: 'db
  Messages_calls :: "(RoomID \<times> string \<times> int) list"
  Prepend_calls :: "(RoomID \<times> EventRowID list) list"
  WakeupRequestQueue_calls :: nat

text \<open>
  The variables of the transaction closure: \<open>events\<close> and \<open>wakeupSessionRequests\<close> are
  captured from the enclosing function and keep what the closure wrote when it fails.
\<close>

record 'db txn_vars =
  events :: "Event option list"
  eventRowIDs :: "EventRowID list"
  decryptionQueue :: SessionRequests
  iOffset :: nat
  wakeupSessionRequests :: bool
  prepended :: "(RoomID \<times> EventRowID list) list"
  txdb :: 'db

text \<open>The loop over \<^verbatim>\<open>resp.Chunk\<close> (lines 261-277); \<open>i\<close> is the index of the head of the list.\<close>

fun paginate_loop ::
  "('db, 'evt) collaborators \<Rightarrow> RoomID \<Rightarrow> Room \<Rightarrow> 'evt list \<Rightarrow> nat \<Rightarrow> 'db txn_vars
     \<Rightarrow> error option \<times> 'db txn_vars" where
  "paginate_loop c roomID room [] i v = (None, v)"
| "paginate_loop c roomID room (evt # rest) i v =
     (case processEvent c (txdb v) evt (LazyLoadSummary room) (decryptionQueue v) of
        Inl err \<Rightarrow> (Some err, v)
      | Inr (dbEvt, q, db) \<Rightarrow>
          (let v1 = v\<lparr>decryptionQueue := q, txdb := db\<rparr> in
           case Timeline_Has c db roomID (RowID dbEvt) of
             Inl err \<Rightarrow> (Some (Errorf ''failed to check if event exists in timeline'' err), v1)
           | Inr exists \<Rightarrow>
               if exists then paginate_loop c roomID room rest (i + 1) (v1\<lparr>iOffset := iOffset v1 + 1\<rparr>)
               else
                 (let k = i - iOffset v1;
                      evs = (events v1)[k := Some dbEvt];
                      ids = (eventRowIDs v1)[k := (case evs ! k of Some e \<Rightarrow> RowID e | None \<Rightarrow> 0)]
                  in paginate_loop c roomID room rest (i + 1) (v1\<lparr>events := evs, eventRowIDs := ids\<rparr>))))"

text \<open>Saving the queued session requests (lines 285-290), in the order the map is ranged over.\<close>

fun put_session_requests ::
  "('db, 'evt) collaborators \<Rightarrow> SessionRequests \<Rightarrow> 'db \<Rightarrow> error + 'db" where
  "put_session_requests c [] db = Inr db"
| "put_session_requests c ((sid, entry) # rest) db =
     (case SessionRequest_Put c db entry of
        Inl err \<Rightarrow> Inl (Errorf (''failed to save session request for '' @ Request_SessionID entry) err)
      | Inr db' \<Rightarrow> put_session_requests c rest db')"

text \<open>Lines 308-310: \<^verbatim>\<open>tuples[i]\<close> panics when the store answered fewer tuples than events.\<close>

fun set_timeline_rows :: "Event option list \<Rightarrow> TimelineRowTuple list \<Rightarrow> Event option list option" where
  "set_timeline_rows [] ts = Some []"
| "set_timeline_rows (e # es) [] = None"
| "set_timeline_rows (e # es) (t # ts) =
     (case e of
        None \<Rightarrow> None
      | Some evt \<Rightarrow> map_option ((#) (Some (evt\<lparr>TimelineRowID := Timeline t\<rparr>))) (set_timeline_rows es ts))"

definition present :: "Event option list \<Rightarrow> Event list" where
  "present es = map the (filter (\<lambda>e. e \<noteq> None) es)"

text \<open>The body of the transaction closure (lines 254-312).\<close>

definition paginate_txn ::
  "('db, 'evt) collaborators \<Rightarrow> RoomID \<Rightarrow> Room \<Rightarrow> 'evt RespMessages \<Rightarrow> Event option list \<Rightarrow> 'db
     \<Rightarrow> error option outcome \<times> 'db txn_vars" where
  "paginate_txn c roomID room resp events0 db =
     (let v0 = \<lparr>events = events0, eventRowIDs = replicate (length (Chunk resp)) 0,
                decryptionQueue = [], iOffset = 0, wakeupSessionRequests = False,
                prepended = [], txdb = db\<rparr> in
      case ctx_Err c of
        Some err \<Rightarrow> (Return (Some err), v0)
      | None \<Rightarrow>
          (case paginate_loop c roomID room (Chunk resp) 0 v0 of
             (Some err, v1) \<Rightarrow> (Return (Some err), v1)
           | (None, v1) \<Rightarrow>
               if iOffset v1 \<ge> length (events v1) then (Return None, v1\<lparr>events := take 0 (events v1)\<rparr>)
               else
                 (let v2 = v1\<lparr>events := take (length (events v1) - iOffset v1) (events v1),
                               eventRowIDs := take (length (eventRowIDs v1) - iOffset v1) (eventRowIDs v1),
                               wakeupSessionRequests := (length (decryptionQueue v1) > 0)\<rparr> in
                  case put_session_requests c (decryptionQueue v2) (txdb v2) of
                    Inl err \<Rightarrow> (Return (Some err), v2)
                  | Inr db3 \<Rightarrow>
                      (let v3 = v2\<lparr>txdb := db3\<rparr> in
                       case Event_FillReactionCounts c db3 roomID (present (events v3)) of
                         Inl err \<Rightarrow> (Return (Some (Errorf ''failed to fill last edit row IDs'' err)), v3)
                       | Inr rc \<Rightarrow>
                           (let v4 = v3\<lparr>events := map (map_option (\<lambda>e. e\<lparr>Reactions := rc e\<rparr>)) (events v3)\<rparr> in
                            case Event_FillLastEditRowIDs c db3 roomID (present (events v4)) of
                              Inl err \<Rightarrow> (Return (Some (Errorf ''failed to fill last edit row IDs'' err)), v4)
                            | Inr le \<Rightarrow>
                                (let v5 = v4\<lparr>events := map (map_option (\<lambda>e. e\<lparr>LastEditRowID := le e\<rparr>)) (events v4)\<rparr> in
                                 case Room_SetPrevBatch c db3 (Room_ID room) (End resp) of
                                   Inl err \<Rightarrow> (Return (Some (Errorf ''failed to set prev_batch'' err)), v5)
                                 | Inr db4 \<Rightarrow>
                                     (let v6 = v5\<lparr>txdb := db4,
                                                   prepended := prepended v5 @ [(Room_ID room, eventRowIDs v5)]\<rparr> in
                                      case Timeline_Prepend c db4 (Room_ID room) (eventRowIDs v6) of
                                        Inl err \<Rightarrow> (Return (Some (Errorf ''failed to prepend events to timeline'' err)), v6)
                                      | Inr (tuples, db5) \<Rightarrow>
                                          (let v7 = v6\<lparr>txdb := db5\<rparr> in
                                           case set_timeline_rows (events v7) tuples of
                                             None \<Rightarrow> (Panic ''index out of range'', v7)
                                           | Some evs \<Rightarrow> (Return None, v7\<lparr>events := evs\<rparr>)))))))))"

text \<open>
  \<^verbatim>\<open>DB.DoTxn\<close>: the closure runs on the database; its writes are kept only when it
  returns no error and the commit succeeds.
\<close>

definition DoTxn ::
  "('db, 'evt) collaborators \<Rightarrow> 'db \<Rightarrow> ('db \<Rightarrow> error option outcome \<times> 'db txn_vars)
     \<Rightarrow> error option outcome \<times> 'db txn_vars \<times> 'db" where
  "DoTxn c db body =
     (case body db of
        (Panic p, v) \<Rightarrow> (Panic p, v, db)
      | (Return (Some err), v) \<Rightarrow> (Return (Some err), v, db)
      | (Return None, v) \<Rightarrow>
          (case Txn_Commit c (txdb v) of
             Inl err \<Rightarrow> (Return (Some err), v, db)
           | Inr db' \<Rightarrow> (Return None, v, db')))"

text \<open>Lines 232-316: the function after the single-flight entry has been inserted.\<close>

definition PaginateServer_body ::
  "('db, 'evt) collaborators \<Rightarrow> 'db HiClient \<Rightarrow> RoomID \<Rightarrow> int
     \<Rightarrow> (PaginationResponse option \<times> error option) outcome \<times> 'db HiClient" where
  "PaginateServer_body c h roomID limit =
     (case Room_Get c (DB h) roomID of
        Inl err \<Rightarrow> (Return (None, Some (Errorf ''failed to get room from database'' err)), h)
      | Inr None \<Rightarrow> (Panic ''nil pointer dereference'', h)
      | Inr (Some room) \<Rightarrow>
          if PrevBatch room = PrevBatchPaginationComplete c
          then (Return (Some \<lparr>Events = [], HasMore = False\<rparr>, None), h)
          else
            (let h1 = h\<lparr>Messages_calls := Messages_calls h @ [(roomID, PrevBatch room, limit)]\<rparr> in
             case Client_Messages c roomID (PrevBatch room) limit of
               Inl err \<Rightarrow> (Return (None, Some (Errorf ''failed to get messages from server'' err)), h1)
             | Inr resp0 \<Rightarrow>
                 (let events0 = replicate (length (Chunk resp0)) None;
                      resp = (if End resp0 = '''' then resp0\<lparr>End := PrevBatchPaginationComplete c\<rparr> else resp0)
                  in
                  if End resp = PrevBatchPaginationComplete c \<or> length (Chunk resp) = 0 then
                    (case Room_SetPrevBatch c (DB h1) (Room_ID room) (End resp) of
                       Inl err \<Rightarrow> (Return (None, Some (Errorf ''failed to set prev_batch'' err)), h1)
                     | Inr db' \<Rightarrow>
                         (Return (Some \<lparr>Events = events0, HasMore = (End resp \<noteq> '''')\<rparr>, None), h1\<lparr>DB := db'\<rparr>))
                  else
                    (case DoTxn c (DB h1) (paginate_txn c roomID room resp events0) of
                       (r, v, db') \<Rightarrow>
                         (let h2 = h1\<lparr>DB := db', Prepend_calls := Prepend_calls h1 @ prepended v\<rparr> in
                          case r of
                            Panic p \<Rightarrow> (Panic p, h2)
                          | Return err \<Rightarrow>
                              (let h3 = (if err = None \<and> wakeupSessionRequests v
                                         then h2\<lparr>WakeupRequestQueue_calls := WakeupRequestQueue_calls h2 + 1\<rparr>
                                         else h2)
                               in (Return (Some \<lparr>Events = events v, HasMore = True\<rparr>, err), h3)))))))"

text \<open>
  Lines 217-230: the check and the insertion happen under the lock, in one step; the
  deferred function deletes the entry on every way out of the body, a panic included.
\<close>

definition PaginateServer ::
  "('db, 'evt) collaborators \<Rightarrow> 'db HiClient \<Rightarrow> RoomID \<Rightarrow> int
     \<Rightarrow> (PaginationResponse option \<times> error option) outcome \<times> 'db HiClient" where
  "PaginateServer c h roomID limit =
     (if roomID \<in> dom (paginationInterrupter h)
      then (Return (None, Some ErrPaginationAlreadyInProgress), h)
      else
        (case PaginateServer_body c (h\<lparr>paginationInterrupter := (paginationInterrupter h)(roomID \<mapsto> ())\<rparr>) roomID limit of
           (r, h') \<Rightarrow> (r, h'\<lparr>paginationInterrupter := (paginationInterrupter h')(roomID := None)\<rparr>)))"

subsection \<open>Specification of the page: what each event of the chunk turned into\<close>

text \<open>
  The naive reading of the loop, used to state what the in-place compaction computes:
  the events of the chunk in order, each with the answer of the timeline check made for
  it. \<open>fresh\<close> are the events that were not yet in the timeline, \<open>duplicates\<close> counts
  the others.
\<close>

fun processed_chunk ::
  "('db, 'evt) collaborators \<Rightarrow> RoomID \<Rightarrow> Room \<Rightarrow> 'evt list \<Rightarrow> SessionRequests \<Rightarrow> 'db
     \<Rightarrow> (Event \<times> bool) list" where
  "processed_chunk c roomID room [] q db = []"
| "processed_chunk c roomID room (evt # rest) q db =
     (case processEvent c db evt (LazyLoadSummary room) q of
        Inl err \<Rightarrow> []
      | Inr (dbEvt, q', db') \<Rightarrow>
          (case Timeline_Has c db' roomID (RowID dbEvt) of
             Inl err \<Rightarrow> []
           | Inr exists \<Rightarrow> (dbEvt, exists) # processed_chunk c roomID room rest q' db'))"

definition fresh :: "(Event \<times> bool) list \<Rightarrow> Event list" where
  "fresh rs = map fst (filter (\<lambda>p. \<not> snd p) rs)"

definition duplicates :: "(Event \<times> bool) list \<Rightarrow> nat" where
  "duplicates rs = length (filter snd rs)"

subsection \<open>An in-memory store to run the function on\<close>

text \<open>
  One room; a raw event is its row number and whether it cannot be decrypted yet. The
  store never fails; \<open>reply\<close> is what the server answers.
\<close>

record MemDB =
  mem_prev_batch :: string
  mem_timeline :: "EventRowID list"

definition memstore :: "error + (nat \<times> bool) RespMessages \<Rightarrow> (MemDB, nat \<times> bool) collaborators" where
  "memstore reply =
     \<lparr>PrevBatchPaginationComplete = ''complete'',
      Room_Get = (\<lambda>db r. Inr (Some \<lparr>Room_ID = r, PrevBatch = mem_prev_batch db, LazyLoadSummary = None,
          SortingTimestamp = 0, PreviewEventRowID = 0\<rparr>)),
      Client_Messages = (\<lambda>r from limit. reply),
      Room_SetPrevBatch = (\<lambda>db r t. Inr (db\<lparr>mem_prev_batch := t\<rparr>)),
      ctx_Err = None,
      processEvent = (\<lambda>db (n, undecryptable) summary q.
         Inr (\<lparr>RowID = int n, Event_ID = ''$e'', TimelineRowID = 0, Reactions = [], LastEditRowID = None\<rparr>,
              (if undecryptable then [(''s'', \<lparr>Request_RoomID = ''!r'', Request_SessionID = ''s''\<rparr>)] else q),
              db)),
      Timeline_Has = (\<lambda>db r row. Inr (row \<in> set (mem_timeline db))),
      SessionRequest_Put = (\<lambda>db entry. Inr db),
      Event_FillReactionCounts = (\<lambda>db r es. Inr (\<lambda>e. [])),
      Event_FillLastEditRowIDs = (\<lambda>db r es. Inr (\<lambda>e. None)),
      Timeline_Prepend = (\<lambda>db r rows.
         Inr (map (\<lambda>row. \<lparr>Timeline = - row, Tuple_Event = row\<rparr>) rows,
              db\<lparr>mem_timeline := rows @ mem_timeline db\<rparr>)),
      Txn_Commit = Inr\<rparr>"

definition memclient :: "string \<Rightarrow> EventRowID list \<Rightarrow> MemDB HiClient" where
  "memclient token rows =
     \<lparr>paginationInterrupter = Map.empty, DB = \<lparr>mem_prev_batch = token, mem_timeline = rows\<rparr>,
      Messages_calls = [], Prepend_calls = [], WakeupRequestQueue_calls = 0\<rparr>"

section \<open>Room list maintainer (web/src/api/statestore: \<^verbatim>\<open>StateStore\<close>)\<close>

text \<open>
  The frontend's \<^verbatim>\<open>StateStore\<close> keeps the room list, an array of \<^verbatim>\<open>RoomListEntry\<close> ordered
  by \<^verbatim>\<open>sorting_timestamp\<close>. Timestamps and counters are JavaScript numbers holding
  integers; they are modelled as \<open>int\<close>. The fields of a room's metadata carry the prefix
  \<open>meta_\<close>, those of a \<^verbatim>\<open>SyncRoom\<close> the prefix \<open>sr_\<close>.
\<close>

record MemDBEvent =
  rowid :: int
  sender :: string
  content_body :: "string option"

record DBRoom =
  meta_room_id :: RoomID
  meta_name :: "string option"
  meta_avatar :: "string option"
  meta_sorting_timestamp :: int
  meta_unread_messages :: int
  meta_unread_notifications :: int
  meta_unread_highlights :: int
  meta_preview_event_rowid :: int

record SyncRoom =
  meta :: DBRoom
  sr_events :: "MemDBEvent list"
  sr_state :: "((string \<times> string) \<times> int) list"
  sr_notifications :: "(int \<times> bool) list"

text \<open>\<^verbatim>\<open>sync.rooms\<close> is an object; \<^verbatim>\<open>Object.entries\<close> lists its keys, each once, in insertion order.\<close>

record SyncCompleteData =
  sync_rooms :: "(RoomID \<times> SyncRoom) list"

record RoomListEntry =
  room_id :: RoomID
  sorting_timestamp :: int
  preview_event :: "MemDBEvent option"
  preview_sender :: "MemDBEvent option"
  name :: string
  search_name :: string
  avatar :: "string option"
  unread_messages :: int
  unread_notifications :: int
  unread_highlights :: int

record RoomStateStore =
  meta_current :: DBRoom
  eventsByRowID :: "int \<rightharpoonup> MemDBEvent"
  room_state :: "(string \<times> string) \<rightharpoonup> int"

text \<open>
  Modelled from the spec: \<^verbatim>\<open>RoomStateStore\<close> (\<^verbatim>\<open>./room.ts\<close>), of which the source shows only
  the uses. A new store holds the metadata it was created with; \<^verbatim>\<open>applySync\<close> replaces the
  metadata by the delta's and records the delta's events and state; \<^verbatim>\<open>getStateEvent\<close>
  looks the state event up by type and state key.
\<close>

definition new_RoomStateStore :: "DBRoom \<Rightarrow> RoomStateStore" where
  "new_RoomStateStore m = \<lparr>meta_current = m, eventsByRowID = Map.empty, room_state = Map.empty\<rparr>"

definition RoomStateStore_applySync :: "RoomStateStore \<Rightarrow> SyncRoom \<Rightarrow> RoomStateStore" where
  "RoomStateStore_applySync room data =
     room\<lparr>meta_current := meta data,
          eventsByRowID := foldl (\<lambda>m evt. m(rowid evt \<mapsto> evt)) (eventsByRowID room) (sr_events data),
          room_state := foldl (\<lambda>m (k, r). m(k \<mapsto> r)) (room_state room) (sr_state data)\<rparr>"

definition getStateEvent :: "RoomStateStore \<Rightarrow> string \<Rightarrow> string \<Rightarrow> MemDBEvent option" where
  "getStateEvent room type key =
     (case room_state room (type, key) of None \<Rightarrow> None | Some r \<Rightarrow> eventsByRowID room r)"

text \<open>
  The store. \<open>roomList_current\<close> is \<^verbatim>\<open>roomList.current\<close>; \<open>roomList_emitted\<close> lists the arrays
  passed to \<^verbatim>\<open>roomList.emit\<close>, which stores its argument as the current value and notifies
  the listeners.
\<close>

record StateStore =
  rooms :: "RoomID \<rightharpoonup> RoomStateStore"
  roomList_current :: "RoomListEntry list"
  roomList_emitted :: "RoomListEntry list list"
  showNotification_calls :: "(RoomID \<times> int \<times> bool) list"

text \<open>
  What the store takes from the browser: \<^verbatim>\<open>toSearchableString\<close> (Unicode normalisation and
  the \<^verbatim>\<open>unhomoglyph\<close> library) and whether notifications are to be shown
  (\<^verbatim>\<open>Notification.permission === "granted" && !focused.current\<close>).
\<close>

record browser =
  toSearchableString :: "string \<Rightarrow> string"
  notifying :: bool

definition StateStore_init :: StateStore where
  "StateStore_init = \<lparr>rooms = Map.empty, roomList_current = [], roomList_emitted = [],
                       showNotification_calls = []\<rparr>"

definition roomList_emit :: "RoomListEntry list \<Rightarrow> StateStore \<Rightarrow> StateStore" where
  "roomList_emit l s = s\<lparr>roomList_current := l, roomList_emitted := roomList_emitted s @ [l]\<rparr>"

text \<open>Lines 132-139.\<close>

definition roomListEntryChanged :: "SyncRoom \<Rightarrow> RoomStateStore \<Rightarrow> bool" where
  "roomListEntryChanged entry oldEntry \<longleftrightarrow>
     meta_sorting_timestamp (meta entry) \<noteq> meta_sorting_timestamp (meta_current oldEntry) \<or>
     meta_unread_messages (meta entry) \<noteq> meta_unread_messages (meta_current oldEntry) \<or>
     meta_unread_notifications (meta entry) \<noteq> meta_unread_notifications (meta_current oldEntry) \<or>
     meta_unread_highlights (meta entry) \<noteq> meta_unread_highlights (meta_current oldEntry) \<or>
     meta_preview_event_rowid (meta entry) \<noteq> meta_preview_event_rowid (meta_current oldEntry) \<or>
     find (\<lambda>evt. rowid evt = meta_preview_event_rowid (meta entry)) (sr_events entry) \<noteq> None"

text \<open>Lines 141-160; without a room argument the room is looked up by \<^verbatim>\<open>entry.meta.room_id\<close>.\<close>

definition makeRoomListEntry ::
  "browser \<Rightarrow> (RoomID \<rightharpoonup> RoomStateStore) \<Rightarrow> SyncRoom \<Rightarrow> RoomStateStore option \<Rightarrow> RoomListEntry" where
  "makeRoomListEntry b rs entry room0 =
     (let room = (case room0 of None \<Rightarrow> rs (meta_room_id (meta entry)) | Some r \<Rightarrow> Some r);
          preview = (case room of None \<Rightarrow> None
                     | Some r \<Rightarrow> eventsByRowID r (meta_preview_event_rowid (meta entry)));
          psender = (case (preview, room) of
                       (Some p, Some r) \<Rightarrow> getStateEvent r ''m.room.member'' (sender p)
                     | _ \<Rightarrow> None);
          nm = (case meta_name (meta entry) of None \<Rightarrow> ''Unnamed room'' | Some n \<Rightarrow> n)
      in \<lparr>room_id = meta_room_id (meta entry),
          sorting_timestamp = meta_sorting_timestamp (meta entry),
          preview_event = preview,
          preview_sender = psender,
          name = nm,
          search_name = toSearchableString b nm,
          avatar = meta_avatar (meta entry),
          unread_messages = meta_unread_messages (meta entry),
          unread_notifications = meta_unread_notifications (meta entry),
          unread_highlights = meta_unread_highlights (meta entry)\<rparr>)"

text \<open>\<^verbatim>\<open>Map.prototype.set\<close> on an insertion-ordered map: a present key keeps its place.\<close>

fun Map_set :: "('k \<times> 'v) list \<Rightarrow> 'k \<Rightarrow> 'v \<Rightarrow> ('k \<times> 'v) list" where
  "Map_set [] k v = [(k, v)]"
| "Map_set ((k', v') # m) k v = (if k' = k then (k, v) # m else (k', v') # Map_set m k v)"

text \<open>\<^verbatim>\<open>Array.prototype.findLastIndex\<close>: the greatest index whose element satisfies \<open>P\<close>, or \<open>-1\<close>.\<close>

fun findLastIndex :: "('a \<Rightarrow> bool) \<Rightarrow> 'a list \<Rightarrow> int" where
  "findLastIndex P [] = - 1"
| "findLastIndex P (x # xs) =
     (let r = findLastIndex P xs in if r \<ge> 0 then r + 1 else if P x then 0 else - 1)"

text \<open>\<^verbatim>\<open>xs.splice(start, 0, e)\<close> for \<open>0 \<le> start\<close>: a start beyond the end is the end.\<close>

definition splice_insert :: "int \<Rightarrow> 'a \<Rightarrow> 'a list \<Rightarrow> 'a list" where
  "splice_insert start e xs = take (nat start) xs @ e # drop (nat start) xs"

text \<open>Lines 193-203: where one new or changed entry goes.\<close>

definition place_entry :: "RoomListEntry \<Rightarrow> RoomListEntry list \<Rightarrow> RoomListEntry list" where
  "place_entry entry updatedRoomList =
     (if length updatedRoomList = 0 \<or> sorting_timestamp entry \<ge> sorting_timestamp (last updatedRoomList)
      then updatedRoomList @ [entry]
      else if sorting_timestamp entry \<le> 0 \<or> sorting_timestamp entry < sorting_timestamp (hd updatedRoomList)
      then entry # updatedRoomList
      else
        (let indexToPushAt = findLastIndex (\<lambda>val. sorting_timestamp val \<le> sorting_timestamp entry) updatedRoomList
         in splice_insert (indexToPushAt + 1) entry updatedRoomList))"

text \<open>
  Lines 165-184: the loop over the rooms of the payload. It carries the rooms, the map
  of changed entries and the notifications shown.
\<close>

fun applySync_rooms ::
  "browser \<Rightarrow> bool \<Rightarrow> (RoomID \<times> SyncRoom) list
     \<Rightarrow> (RoomID \<rightharpoonup> RoomStateStore) \<times> (RoomID \<times> RoomListEntry) list \<times> (RoomID \<times> int \<times> bool) list
     \<Rightarrow> (RoomID \<rightharpoonup> RoomStateStore) \<times> (RoomID \<times> RoomListEntry) list \<times> (RoomID \<times> int \<times> bool) list" where
  "applySync_rooms b resyncRoomList [] acc = acc"
| "applySync_rooms b resyncRoomList ((roomID, data) # rest) (rs, changedRoomListEntries, shown) =
     (let isNewRoom = (rs roomID = None);
          room = (case rs roomID of None \<Rightarrow> new_RoomStateStore (meta data) | Some r \<Rightarrow> r);
          changed = (\<not> resyncRoomList \<and> (isNewRoom \<or> roomListEntryChanged data room));
          room' = RoomStateStore_applySync room data;
          rs' = rs(roomID \<mapsto> room');
          changedRoomListEntries' =
            (if changed then Map_set changedRoomListEntries roomID (makeRoomListEntry b rs' data (Some room'))
             else changedRoomListEntries);
          shown' = (if notifying b then shown @ map (\<lambda>(r, snd). (roomID, r, snd)) (sr_notifications data)
                    else shown)
      in applySync_rooms b resyncRoomList rest (rs', changedRoomListEntries', shown'))"

text \<open>Lines 162-209. The sort of line 189 is stable and compares the timestamps.\<close>

definition applySync :: "browser \<Rightarrow> StateStore \<Rightarrow> SyncCompleteData \<Rightarrow> StateStore" where
  "applySync b s sync =
     (let resyncRoomList = (length (roomList_current s) = 0) in
      case applySync_rooms b resyncRoomList (sync_rooms sync) (rooms s, [], showNotification_calls s) of
        (rs, changedRoomListEntries, shown) \<Rightarrow>
          (let s1 = s\<lparr>rooms := rs, showNotification_calls := shown\<rparr>;
               updatedRoomList =
                 (if resyncRoomList
                  then Some (sort_key sorting_timestamp
                               (map (\<lambda>(k, entry). makeRoomListEntry b rs entry None) (sync_rooms sync)))
                  else if length changedRoomListEntries > 0
                  then Some (foldl (\<lambda>l entry. place_entry entry l)
                               (filter (\<lambda>entry. room_id entry \<notin> fst ` set changedRoomListEntries)
                                  (roomList_current s))
                               (map snd changedRoomListEntries))
                  else None)
           in case updatedRoomList of None \<Rightarrow> s1 | Some l \<Rightarrow> roomList_emit l s1))"

subsection \<open>Specification of the room list\<close>

text \<open>
  A payload is well formed when the keys of \<^verbatim>\<open>sync.rooms\<close> are distinct, as the keys of an
  object are, and every room is filed under its own identifier. The invariant of the
  list: ascending timestamps, and exactly one entry for every room the store knows.
\<close>

definition well_formed_sync :: "SyncCompleteData \<Rightarrow> bool" where
  "well_formed_sync sync \<longleftrightarrow>
     distinct (map fst (sync_rooms sync)) \<and> (\<forall>(k, d)\<in>set (sync_rooms sync). meta_room_id (meta d) = k)"

definition nonneg_timestamps :: "SyncCompleteData \<Rightarrow> bool" where
  "nonneg_timestamps sync \<longleftrightarrow> (\<forall>(k, d)\<in>set (sync_rooms sync). 0 \<le> meta_sorting_timestamp (meta d))"

definition roomList_inv :: "StateStore \<Rightarrow> bool" where
  "roomList_inv s \<longleftrightarrow>
     sorted (map sorting_timestamp (roomList_current s)) \<and>
     distinct (map room_id (roomList_current s)) \<and>
     set (map room_id (roomList_current s)) = dom (rooms s)"

subsection \<open>Payloads to run the store on\<close>

text \<open>A delta that carries nothing but a room's identifier and sorting timestamp.\<close>

definition sync_room :: "RoomID \<Rightarrow> int \<Rightarrow> SyncRoom" where
  "sync_room r ts =
     \<lparr>meta = \<lparr>meta_room_id = r, meta_name = None, meta_avatar = None, meta_sorting_timestamp = ts,
              meta_unread_messages = 0, meta_unread_notifications = 0, meta_unread_highlights = 0,
              meta_preview_event_rowid = 0\<rparr>,
      sr_events = [], sr_state = [], sr_notifications = []\<rparr>"

definition plain_browser :: browser where
  "plain_browser = \<lparr>toSearchableString = (\<lambda>s. s), notifying = False\<rparr>"

section \<open>Initial room list of a connection (websocket.go: \<^verbatim>\<open>sendInitialData\<close>)\<close>

text \<open>
  After the client-state message, \<^verbatim>\<open>sendInitialData\<close> sends the stored rooms in batches.
  Times are integers (milliseconds). The database and the connection are external; the
  loop has no bound of its own, so the model takes fuel and answers \<open>None\<close> when the fuel
  runs out.
\<close>

record hicli_SyncRoom =
  Meta :: Room
  SyncRoom_Events :: "Event list"

type_synonym SyncComplete_Rooms = "(RoomID \<times> hicli_SyncRoom) list"

text \<open>
  \<open>writeCmd\<close> answers the error of writing the message with the given index (\<open>0\<close> is the
  first \<^verbatim>\<open>sync_complete\<close>); \<open>Marshal\<close> the error of encoding a payload.
\<close>

record initial_data_env =
  GetBySortTS :: "int \<Rightarrow> nat \<Rightarrow> error + Room list"
  GetByRowID :: "EventRowID \<Rightarrow> error + Event option"
  Marshal :: "SyncComplete_Rooms \<Rightarrow> error option"
  writeCmd :: "nat \<Rightarrow> error option"

definition BatchSize :: nat where
  "BatchSize = 100"

definition Hour :: int where
  "Hour = 3600000"

text \<open>Lines 229-246: the preview event of a room and its last edit.\<close>

definition preview_events :: "initial_data_env \<Rightarrow> Room \<Rightarrow> error + Event list" where
  "preview_events env room =
     (if PreviewEventRowID room \<noteq> 0 then
        (case GetByRowID env (PreviewEventRowID room) of
           Inl err \<Rightarrow> Inl err
         | Inr None \<Rightarrow> Inr []
         | Inr (Some previewEvent) \<Rightarrow>
             (case LastEditRowID previewEvent of
                None \<Rightarrow> Inr [previewEvent]
              | Some edit \<Rightarrow>
                  (case GetByRowID env edit of
                     Inl err \<Rightarrow> Inl err
                   | Inr None \<Rightarrow> Inr [previewEvent]
                   | Inr (Some lastEdit) \<Rightarrow> Inr [previewEvent, lastEdit])))
      else Inr [])"

text \<open>
  Lines 218-247: the loop over the fetched rooms. \<open>lastTS\<close> is the timestamp of the last
  fetched room; the loop stops at the first room that has it.
\<close>

fun collect_rooms ::
  "initial_data_env \<Rightarrow> int \<Rightarrow> Room list \<Rightarrow> int \<times> SyncComplete_Rooms
     \<Rightarrow> error + (int \<times> SyncComplete_Rooms)" where
  "collect_rooms env lastTS [] (maxTS, payload) = Inr (maxTS, payload)"
| "collect_rooms env lastTS (room # rest) (maxTS, payload) =
     (if SortingTimestamp room = lastTS then Inr (maxTS, payload)
      else
        (case preview_events env room of
           Inl err \<Rightarrow> Inl err
         | Inr evs \<Rightarrow>
             collect_rooms env lastTS rest
               (SortingTimestamp room,
                Map_set payload (Room_ID room) \<lparr>Meta = room, SyncRoom_Events = evs\<rparr>)))"

datatype initial_data_result = Sent_initial_rooms nat | Gave_up error

text \<open>
  Lines 206-265; \<open>fetched\<close> is the variable \<^verbatim>\<open>rooms\<close>. The result carries the payloads written so far; \<open>Sent_initial_rooms n\<close>
  is the normal end, with the \<^verbatim>\<open>room_count\<close> that is logged.
\<close>

fun sendInitialData_loop ::
  "initial_data_env \<Rightarrow> nat \<Rightarrow> int \<Rightarrow> nat \<Rightarrow> SyncComplete_Rooms list
     \<Rightarrow> (initial_data_result \<times> SyncComplete_Rooms list) option" where
  "sendInitialData_loop env 0 maxTS roomCount sent = None"
| "sendInitialData_loop env (Suc fuel) maxTS roomCount sent =
     (case GetBySortTS env maxTS BatchSize of
        Inl err \<Rightarrow> Some (Gave_up err, sent)
      | Inr fetched \<Rightarrow>
          (case collect_rooms env (SortingTimestamp (last fetched)) fetched (maxTS, []) of
             Inl err \<Rightarrow> Some (Gave_up err, sent)
           | Inr (maxTS', payload) \<Rightarrow>
               (case Marshal env payload of
                  Some err \<Rightarrow> Some (Gave_up err, sent)
                | None \<Rightarrow>
                    (case writeCmd env (length sent) of
                       Some err \<Rightarrow> Some (Gave_up err, sent)
                     | None \<Rightarrow>
                         if length fetched < BatchSize
                         then Some (Sent_initial_rooms (roomCount + length fetched), sent @ [payload])
                         else sendInitialData_loop env fuel maxTS' (roomCount + length fetched)
                                (sent @ [payload])))))"

definition sendInitialData ::
  "initial_data_env \<Rightarrow> nat \<Rightarrow> int \<Rightarrow> (initial_data_result \<times> SyncComplete_Rooms list) option" where
  "sendInitialData env fuel now = sendInitialData_loop env fuel (now + 1 * Hour) 0 []"

text \<open>
  Modelled from the spec: \<^verbatim>\<open>Room.GetBySortTS\<close> of package \<^verbatim>\<open>database\<close>, which is not among
  the sources. It answers at most \<open>limit\<close> of the stored rooms whose sorting timestamp is
  below \<open>maxTS\<close>, the most recent first.
\<close>

definition stored_GetBySortTS :: "Room list \<Rightarrow> int \<Rightarrow> nat \<Rightarrow> error + Room list" where
  "stored_GetBySortTS stored maxTS limit =
     Inr (take limit (rev (sort_key SortingTimestamp (filter (\<lambda>r. SortingTimestamp r < maxTS) stored))))"

definition stored_rooms_env :: "Room list \<Rightarrow> initial_data_env" where
  "stored_rooms_env stored =
     \<lparr>GetBySortTS = stored_GetBySortTS stored, GetByRowID = (\<lambda>r. Inr None),
      Marshal = (\<lambda>p. None), writeCmd = (\<lambda>i. None)\<rparr>"

definition stored_room :: "RoomID \<Rightarrow> int \<Rightarrow> Room" where
  "stored_room r ts = \<lparr>Room_ID = r, PrevBatch = '''', LazyLoadSummary = None,
          SortingTimestamp = ts, PreviewEventRowID = 0\<rparr>"

text \<open>A hundred stored rooms that share one sorting timestamp.\<close>

definition hundred_rooms :: "Room list" where
  "hundred_rooms = map (\<lambda>i. stored_room (''!'' @ replicate i CHR ''a'') 1000) [0..<100]"

section \<open>Push dispatcher (websocket.go: \<^verbatim>\<open>HandleWebsocket\<close>)\<close>


















section \<open>Auth token of the web server (server.go: \<^verbatim>\<open>validateAuth\<close>, \<^verbatim>\<open>generateToken\<close>)\<close>

text \<open>
  Strings are lists of bytes, times are integers (milliseconds, as for the initial room
  list). HMAC-SHA256, base64 and JSON come from libraries and are taken as functions.
  \<^verbatim>\<open>jsontime.Unix\<close> writes a time as whole seconds, so the expiry read back from a token
  may be earlier, by less than a second, than the expiry it was made with.
\<close>

record tokenData =
  Username :: string
  Expiry :: int

record web_config =
  Web_Username :: string
  Web_TokenKey :: string

record libraries =
  hmac_sha256 :: "string \<Rightarrow> string \<Rightarrow> string"
  base64_EncodeToString :: "string \<Rightarrow> string"
  base64_DecodeString :: "string \<Rightarrow> string option"
  json_Marshal :: "tokenData \<Rightarrow> string"
  json_Unmarshal :: "string \<Rightarrow> tokenData option"

text \<open>\<^verbatim>\<open>strings.Split\<close> with a separator of one byte.\<close>

fun strings_Split :: "char \<Rightarrow> string \<Rightarrow> string list" where
  "strings_Split sep [] = [[]]"
| "strings_Split sep (c # cs) =
     (if c = sep then [] # strings_Split sep cs
      else (case strings_Split sep cs of [] \<Rightarrow> [[c]] | p # ps \<Rightarrow> (c # p) # ps))"

text \<open>Lines 85-110; \<open>now\<close> is \<^verbatim>\<open>time.Now()\<close>.\<close>

definition validateAuth :: "libraries \<Rightarrow> web_config \<Rightarrow> int \<Rightarrow> string \<Rightarrow> bool" where
  "validateAuth L cfg now token =
     (if length token > 100 then False
      else
        (let parts = strings_Split CHR ''.'' token in
         if length parts \<noteq> 2 then False
         else
           (case base64_DecodeString L (parts ! 0) of
              None \<Rightarrow> False
            | Some rawJSON \<Rightarrow>
                (case base64_DecodeString L (parts ! 1) of
                   None \<Rightarrow> False
                 | Some checksum \<Rightarrow>
                     if hmac_sha256 L (Web_TokenKey cfg) rawJSON \<noteq> checksum then False
                     else
                       (case json_Unmarshal L rawJSON of
                          None \<Rightarrow> False
                        | Some td \<Rightarrow> Username td = Web_Username cfg \<and> Expiry td > now)))))"

text \<open>Lines 112-122.\<close>

definition generateToken :: "libraries \<Rightarrow> web_config \<Rightarrow> int \<Rightarrow> string \<times> int" where
  "generateToken L cfg now =
     (let expiry = now + 7 * 24 * Hour;
          data = json_Marshal L \<lparr>Username = Web_Username cfg, Expiry = expiry\<rparr>;
          checksum = hmac_sha256 L (Web_TokenKey cfg) data
      in (base64_EncodeToString L data @ ''.'' @ base64_EncodeToString L checksum, expiry))"

subsection \<open>Stand-ins for the libraries, to run the two functions\<close>

text \<open>
  A codec that escapes the dot stands in for base64, the first bytes of the reversed key
  and data for HMAC-SHA256, and a printer and reader of the user name and the expiry in
  seconds for \<^verbatim>\<open>encoding/json\<close>.
\<close>

definition escape_encode :: "string \<Rightarrow> string" where
  "escape_encode s =
     concat (map (\<lambda>c. if c = CHR ''.'' then ''_d'' else if c = CHR ''_'' then ''__'' else [c]) s)"

fun escape_decode :: "string \<Rightarrow> string option" where
  "escape_decode [] = Some []"
| "escape_decode [c] = (if c = CHR ''_'' \<or> c = CHR ''.'' then None else Some [c])"
| "escape_decode (c # d # rest) =
     (if c = CHR ''_'' then
        (if d = CHR ''d'' then map_option ((#) CHR ''.'') (escape_decode rest)
         else if d = CHR ''_'' then map_option ((#) CHR ''_'') (escape_decode rest)
         else None)
      else if c = CHR ''.'' then None
      else map_option ((#) c) (escape_decode (d # rest)))"

definition toy_mac :: "string \<Rightarrow> string \<Rightarrow> string" where
  "toy_mac key data = take 8 (rev (key @ data))"

definition digit_char :: "nat \<Rightarrow> char" where
  "digit_char n = ''0123456789'' ! n"

definition digit_value :: "char \<Rightarrow> nat option" where
  "digit_value = map_of
     [(CHR ''0'', 0), (CHR ''1'', 1), (CHR ''2'', 2), (CHR ''3'', 3), (CHR ''4'', 4),
      (CHR ''5'', 5), (CHR ''6'', 6), (CHR ''7'', 7), (CHR ''8'', 8), (CHR ''9'', 9)]"

function decimal :: "nat \<Rightarrow> string" where
  "decimal n = (if n < 10 then [digit_char n] else decimal (n div 10) @ [digit_char (n mod 10)])"
  by pat_completeness auto
termination
  by (relation "measure (\<lambda>n. n)") auto

fun read_decimal :: "string \<Rightarrow> nat \<Rightarrow> nat option" where
  "read_decimal [] acc = Some acc"
| "read_decimal (c # cs) acc =
     (case digit_value c of None \<Rightarrow> None | Some n \<Rightarrow> read_decimal cs (10 * acc + n))"

definition toy_Marshal :: "tokenData \<Rightarrow> string" where
  "toy_Marshal td = Username td @ '':'' @ decimal (nat (Expiry td div 1000))"

definition toy_Unmarshal :: "string \<Rightarrow> tokenData option" where
  "toy_Unmarshal s =
     (case strings_Split CHR '':'' s of
        [u, e] \<Rightarrow> map_option (\<lambda>n. \<lparr>Username = u, Expiry = int n * 1000\<rparr>) (read_decimal e 0)
      | _ \<Rightarrow> None)"

definition toy_libraries :: libraries where
  "toy_libraries = \<lparr>hmac_sha256 = toy_mac, base64_EncodeToString = escape_encode,
                     base64_DecodeString = escape_decode, json_Marshal = toy_Marshal,
                     json_Unmarshal = toy_Unmarshal\<rparr>"

section \<open>Properties of the pagination controller\<close>

lemmas paginate_defs = PaginateServer_def PaginateServer_body_def DoTxn_def paginate_txn_def
  memstore_def memclient_def Let_def present_def

subsection \<open>The compaction loop\<close>

lemma fresh_simps [simp]:
  "fresh [] = []"
  "fresh ((e, ex) # rs) = (if ex then fresh rs else e # fresh rs)"
  by (simp_all add: fresh_def)

lemma duplicates_simps [simp]:
  "duplicates [] = 0"
  "duplicates ((e, ex) # rs) = (if ex then Suc (duplicates rs) else duplicates rs)"
  by (simp_all add: duplicates_def)

lemma length_fresh: "length (fresh rs) + duplicates rs = length rs"
  by (induction rs) (auto simp: fresh_def duplicates_def)

lemma distinct_fresh:
  assumes "distinct (map (RowID \<circ> fst) rs)"
  shows "distinct (map RowID (fresh rs))"
proof -
  have "distinct (map (RowID \<circ> fst) (filter (\<lambda>p. \<not> snd p) rs))"
    using assms by (rule distinct_map_filter)
  then show ?thesis by (simp add: fresh_def)
qed

lemma take_Suc_update:
  "k < length xs \<Longrightarrow> take (Suc k) (xs[k := a]) = take k xs @ [a]"
  by (simp add: take_Suc_conv_app_nth)

text \<open>
  The loop invariant. With \<open>k = i - iOffset\<close> slots already written, a run of the loop
  over the rest of the chunk that meets no error writes the fresh events into the slots
  from \<open>k\<close> on, in order, leaves every other slot alone, and adds the number of
  duplicates to \<open>iOffset\<close>.
\<close>

lemma paginate_loop_compacts:
  assumes "paginate_loop c roomID room chunk i v = (None, v')"
    and "i = iOffset v + k"
    and "k + length chunk \<le> length (events v)"
    and "length (eventRowIDs v) = length (events v)"
  shows "length (processed_chunk c roomID room chunk (decryptionQueue v) (txdb v)) = length chunk
    \<and> iOffset v' = iOffset v + duplicates (processed_chunk c roomID room chunk (decryptionQueue v) (txdb v))
    \<and> events v' = take k (events v)
          @ map Some (fresh (processed_chunk c roomID room chunk (decryptionQueue v) (txdb v)))
          @ drop (k + length (fresh (processed_chunk c roomID room chunk (decryptionQueue v) (txdb v)))) (events v)
    \<and> eventRowIDs v' = take k (eventRowIDs v)
          @ map RowID (fresh (processed_chunk c roomID room chunk (decryptionQueue v) (txdb v)))
          @ drop (k + length (fresh (processed_chunk c roomID room chunk (decryptionQueue v) (txdb v)))) (eventRowIDs v)
    \<and> prepended v' = prepended v
    \<and> wakeupSessionRequests v' = wakeupSessionRequests v"
  using assms
proof (induction chunk arbitrary: i k v)
  case Nil
  then show ?case by simp
next
  case (Cons evt rest)
  from Cons.prems(1) obtain dbEvt q db where
    pe: "processEvent c (txdb v) evt (LazyLoadSummary room) (decryptionQueue v) = Inr (dbEvt, q, db)"
    by (auto split: sum.splits)
  let ?v1 = "v\<lparr>decryptionQueue := q, txdb := db\<rparr>"
  from Cons.prems(1) pe obtain ex where
    has: "Timeline_Has c db roomID (RowID dbEvt) = Inr ex"
    by (auto simp: Let_def split: sum.splits)
  have ik: "i - iOffset v = k" using Cons.prems(2) by simp
  show ?case
  proof (cases ex)
    case True
    let ?v2 = "?v1\<lparr>iOffset := iOffset ?v1 + 1\<rparr>"
    from Cons.prems(1) pe has True
    have run: "paginate_loop c roomID room rest (i + 1) ?v2 = (None, v')"
      by (simp add: Let_def)
    have "i + 1 = iOffset ?v2 + k" using Cons.prems(2) by simp
    from Cons.IH[OF run this] Cons.prems(3,4)
    show ?thesis using pe has True by simp
  next
    case False
    let ?evs = "(events v)[k := Some dbEvt]"
    let ?ids = "(eventRowIDs v)[k := RowID dbEvt]"
    let ?v2 = "?v1\<lparr>events := ?evs, eventRowIDs := ?ids\<rparr>"
    have k: "k < length (events v)" using Cons.prems(3) by simp
    from Cons.prems(1) pe has False k ik
    have run: "paginate_loop c roomID room rest (i + 1) ?v2 = (None, v')"
      by (simp add: Let_def)
    have "i + 1 = iOffset ?v2 + Suc k" using Cons.prems(2) by simp
    from Cons.IH[OF run this] Cons.prems(3,4) k
    show ?thesis using pe has False
      by (simp add: take_Suc_update)
  qed
qed

lemma set_timeline_rows_RowID:
  "set_timeline_rows es ts = Some evs \<Longrightarrow>
     map (map_option RowID) evs = map (map_option RowID) es \<and> None \<notin> set evs"
proof (induction es ts arbitrary: evs rule: set_timeline_rows.induct)
  case (1 ts)
  then show ?case by simp
next
  case (2 e es)
  then show ?case by simp
next
  case (3 e es t ts)
  then show ?case by (auto split: option.splits)
qed

text \<open>What the closure leaves behind when it returns no error.\<close>

lemma paginate_txn_committed:
  assumes run: "paginate_txn c roomID room resp (replicate (length (Chunk resp)) None) db = (Return None, v)"
  shows "length (processed_chunk c roomID room (Chunk resp) [] db) = length (Chunk resp)
    \<and> iOffset v = duplicates (processed_chunk c roomID room (Chunk resp) [] db)
    \<and> map (map_option RowID) (events v) = map (Some \<circ> RowID) (fresh (processed_chunk c roomID room (Chunk resp) [] db))
    \<and> None \<notin> set (events v)
    \<and> prepended v = (if fresh (processed_chunk c roomID room (Chunk resp) [] db) = [] then []
                     else [(Room_ID room, map RowID (fresh (processed_chunk c roomID room (Chunk resp) [] db)))])
    \<and> wakeupSessionRequests v
         = (decryptionQueue v \<noteq> [] \<and> fresh (processed_chunk c roomID room (Chunk resp) [] db) \<noteq> [])"
proof -
  let ?n = "length (Chunk resp)"
  let ?v0 = "\<lparr>events = replicate ?n None, eventRowIDs = replicate ?n 0,
              decryptionQueue = [], iOffset = 0, wakeupSessionRequests = False,
              prepended = [], txdb = db\<rparr> :: 'a txn_vars"
  let ?rs = "processed_chunk c roomID room (Chunk resp) [] db"
  from run have ctx: "ctx_Err c = None"
    by (auto simp: paginate_txn_def Let_def split: option.splits)
  from run ctx obtain v1 where loop: "paginate_loop c roomID room (Chunk resp) 0 ?v0 = (None, v1)"
    by (auto simp: paginate_txn_def Let_def split: option.splits prod.splits)
  have inv: "length ?rs = ?n \<and> iOffset v1 = duplicates ?rs
     \<and> events v1 = map Some (fresh ?rs) @ replicate (?n - length (fresh ?rs)) None
     \<and> eventRowIDs v1 = map RowID (fresh ?rs) @ replicate (?n - length (fresh ?rs)) 0
     \<and> prepended v1 = [] \<and> wakeupSessionRequests v1 = False"
    using paginate_loop_compacts[OF loop, of 0] by simp
  have len: "length (fresh ?rs) + duplicates ?rs = ?n"
    using length_fresh[of ?rs] inv by simp
  show ?thesis
  proof (cases "fresh ?rs = []")
    case True
    then have "iOffset v1 \<ge> length (events v1)" using inv len by simp
    with run ctx loop have "v = v1\<lparr>events := take 0 (events v1)\<rparr>"
      by (simp add: paginate_txn_def Let_def)
    then show ?thesis using inv True by simp
  next
    case False
    then have pos: "0 < length (fresh ?rs)" by simp
    have lenev: "length (events v1) = ?n" "iOffset v1 = duplicates ?rs" using inv len by simp_all
    have lt: "\<not> iOffset v1 \<ge> length (events v1)" using pos len lenev by arith
    let ?v2 = "v1\<lparr>events := take (length (events v1) - iOffset v1) (events v1),
                   eventRowIDs := take (length (eventRowIDs v1) - iOffset v1) (eventRowIDs v1),
                   wakeupSessionRequests := (length (decryptionQueue v1) > 0)\<rparr>"
    have ev2: "take (length (events v1) - iOffset v1) (events v1) = map Some (fresh ?rs)"
      "take (length (eventRowIDs v1) - iOffset v1) (eventRowIDs v1) = map RowID (fresh ?rs)"
      using inv len by simp_all
    from run ctx loop lt obtain db3 rc le db4 tuples db5 evs where
      steps: "put_session_requests c (decryptionQueue ?v2) (txdb ?v2) = Inr db3"
        "Event_FillReactionCounts c db3 roomID (present (events ?v2)) = Inr rc"
        "Event_FillLastEditRowIDs c db3 roomID
           (present (map (map_option (\<lambda>e. e\<lparr>Reactions := rc e\<rparr>)) (events ?v2))) = Inr le"
        "Room_SetPrevBatch c db3 (Room_ID room) (End resp) = Inr db4"
        "Timeline_Prepend c db4 (Room_ID room) (eventRowIDs ?v2) = Inr (tuples, db5)"
        "set_timeline_rows (map (map_option (\<lambda>e. e\<lparr>LastEditRowID := le e\<rparr>))
           (map (map_option (\<lambda>e. e\<lparr>Reactions := rc e\<rparr>)) (events ?v2))) tuples = Some evs"
      and v: "v = ?v2\<lparr>txdb := db3,
                 events := map (map_option (\<lambda>e. e\<lparr>Reactions := rc e\<rparr>)) (events ?v2),
                 events := map (map_option (\<lambda>e. e\<lparr>LastEditRowID := le e\<rparr>))
                             (map (map_option (\<lambda>e. e\<lparr>Reactions := rc e\<rparr>)) (events ?v2)),
                 txdb := db4, prepended := prepended v1 @ [(Room_ID room, eventRowIDs ?v2)],
                 txdb := db5, events := evs\<rparr>"
      by (simp add: paginate_txn_def Let_def split: sum.splits option.splits prod.splits)
    from set_timeline_rows_RowID[OF steps(6)]
    have "map (map_option RowID) evs = map (Some \<circ> RowID) (fresh ?rs)" "None \<notin> set evs"
      by (simp_all add: ev2 comp_def)
    moreover have p1: "prepended v1 = []" and "length ?rs = ?n" using inv by simp_all
    moreover have "iOffset v = duplicates ?rs" using v lenev(2) by simp
    moreover have "events v = evs" using v by simp
    moreover have "prepended v = [(Room_ID room, map RowID (fresh ?rs))]"
      using v p1 by (simp add: ev2)
    moreover have "wakeupSessionRequests v = (decryptionQueue v \<noteq> [])" using v by simp
    ultimately show ?thesis using False by simp
  qed
qed

lemma DoTxn_committed:
  "DoTxn c db body = (Return None, v, db') \<Longrightarrow> body db = (Return None, v)"
  by (auto simp: DoTxn_def split: prod.splits outcome.splits option.splits sum.splits)

lemma PaginateServer_body_interrupter:
  "paginationInterrupter (snd (PaginateServer_body c h roomID limit)) = paginationInterrupter h"
  unfolding PaginateServer_body_def
  by (simp add: Let_def split: sum.splits option.splits prod.splits outcome.splits)

text \<open>
  Whatever happens, one call wakes the decryption queue at most once.
\<close>

lemma wakeup_at_most_once:
  "WakeupRequestQueue_calls (snd (PaginateServer c h roomID limit)) = WakeupRequestQueue_calls h
   \<or> WakeupRequestQueue_calls (snd (PaginateServer c h roomID limit)) = WakeupRequestQueue_calls h + 1"
  by (auto simp: PaginateServer_def PaginateServer_body_def Let_def
      split: sum.splits option.splits prod.splits outcome.splits)

subsection \<open>Claims about \<^verbatim>\<open>PaginateServer\<close>\<close>

text \<open>
  Claim C1, as stated, fails on a page that holds the same event twice: line 265 asks
  only whether the row is in the timeline, and the prepend of line 304 runs after the
  loop, so neither occurrence is found there and both are kept. The server answers a
  page of two entries that the processor stores under row 1; rows \<open>[1, 1]\<close> are handed to
  the prepend and the event is returned twice.
\<close>

theorem PaginateServer_repeated_row_in_batch:
  "map (map_option RowID)
     (case fst (PaginateServer (memstore (Inr \<lparr>Chunk = [(1, False), (1, False)], End = ''t2''\<rparr>))
                  (memclient ''t1'' [5, 6]) ''!r'' 10) of
        Return (Some pr, err) \<Rightarrow> Events pr | _ \<Rightarrow> []) = [Some 1, Some 1]
   \<and> Prepend_calls (snd (PaginateServer (memstore (Inr \<lparr>Chunk = [(1, False), (1, False)], End = ''t2''\<rparr>))
            (memclient ''t1'' [5, 6]) ''!r'' 10)) = [(''!r'', [1, 1])]
   \<and> \<not> distinct [1, 1 :: int]"
  by (simp add: paginate_defs)

text \<open>
  Claim C1, amended. When \<^verbatim>\<open>PaginateServer\<close> has applied a page in its transaction and
  returns without error, the returned events are exactly the events of the chunk that
  the timeline check found absent, in the order of the chunk (every event already in the
  timeline is left out): their number is the length of the chunk minus the number of
  events found in the timeline, none of them is nil, and the row identifiers handed to
  the timeline prepend are, index by index, the row identifiers of the returned events
  (nothing is handed over when every event was found in the timeline). The function does
  not look for repeats within the page: the batch holds no row twice when the events of
  the chunk have different rows.
\<close>

theorem PaginateServer_compacts_page:
  assumes get: "Room_Get c (DB h) roomID = Inr (Some room)"
    and nosent: "PrevBatch room \<noteq> PrevBatchPaginationComplete c"
    and msgs: "Client_Messages c roomID (PrevBatch room) limit = Inr resp"
    and more: "End resp \<noteq> ''''" "End resp \<noteq> PrevBatchPaginationComplete c" "Chunk resp \<noteq> []"
    and ok: "PaginateServer c h roomID limit = (Return (Some pr, None), h')"
  shows "let rs = processed_chunk c roomID room (Chunk resp) [] (DB h) in
      length rs = length (Chunk resp)
    \<and> map (map_option RowID) (Events pr) = map (Some \<circ> RowID) (fresh rs)
    \<and> None \<notin> set (Events pr)
    \<and> length (Events pr) = length (Chunk resp) - duplicates rs
    \<and> Prepend_calls h' = Prepend_calls h @ (if fresh rs = [] then [] else [(Room_ID room, map RowID (fresh rs))])
    \<and> (distinct (map (RowID \<circ> fst) rs) \<longrightarrow>
          distinct (map (map_option RowID) (Events pr)) \<and> distinct (map RowID (fresh rs)))"
proof -
  let ?rs = "processed_chunk c roomID room (Chunk resp) [] (DB h)"
  let ?h0 = "h\<lparr>paginationInterrupter := (paginationInterrupter h)(roomID \<mapsto> ())\<rparr>"
  from ok have free: "roomID \<notin> dom (paginationInterrupter h)"
    by (auto simp: PaginateServer_def split: if_splits)
  with ok obtain hb where body: "PaginateServer_body c ?h0 roomID limit = (Return (Some pr, None), hb)"
    and h': "Prepend_calls h' = Prepend_calls hb"
    by (auto simp: PaginateServer_def split: prod.splits)
  obtain r v db' where txn:
    "DoTxn c (DB h) (paginate_txn c roomID room resp (replicate (length (Chunk resp)) None)) = (r, v, db')"
    by (metis prod_cases3)
  from body get nosent msgs more txn
  have r: "r = Return None" and pr: "Events pr = events v"
    and hb: "Prepend_calls hb = Prepend_calls h @ prepended v"
    by (auto simp: PaginateServer_body_def Let_def split: outcome.splits if_splits)
  from txn r have
    "paginate_txn c roomID room resp (replicate (length (Chunk resp)) None) (DB h) = (Return None, v)"
    by (simp add: DoTxn_committed)
  from paginate_txn_committed[OF this]
  have facts: "length ?rs = length (Chunk resp)"
    "map (map_option RowID) (events v) = map (Some \<circ> RowID) (fresh ?rs)"
    "None \<notin> set (events v)"
    "prepended v = (if fresh ?rs = [] then [] else [(Room_ID room, map RowID (fresh ?rs))])"
    by simp_all
  have "length (events v) = length (fresh ?rs)"
    using arg_cong[OF facts(2), of length] by simp
  then have len: "length (events v) = length (Chunk resp) - duplicates ?rs"
    using length_fresh[of ?rs] facts(1) by simp
  have "distinct (map (map_option RowID) (events v))" if "distinct (map RowID (fresh ?rs))"
    unfolding facts(2) using that by (simp add: distinct_map inj_on_def)
  then show ?thesis
    unfolding Let_def using facts len pr h' hb distinct_fresh[of ?rs] by simp
qed

text \<open>
  A page of three events, the second of which (row 5) is already in the timeline: the
  events of rows 1 and 3 come back, and rows 1 and 3 are handed to the prepend.
\<close>

theorem PaginateServer_compacts_page_witness:
  "fst (PaginateServer (memstore (Inr \<lparr>Chunk = [(1, False), (5, True), (3, False)], End = ''t2''\<rparr>))
            (memclient ''t1'' [5, 6]) ''!r'' 10)
     = Return (Some \<lparr>Events =
        [Some \<lparr>RowID = 1, Event_ID = ''$e'', TimelineRowID = - 1, Reactions = [], LastEditRowID = None\<rparr>,
         Some \<lparr>RowID = 3, Event_ID = ''$e'', TimelineRowID = - 3, Reactions = [], LastEditRowID = None\<rparr>],
        HasMore = True\<rparr>, None)
   \<and> Prepend_calls (snd (PaginateServer (memstore (Inr \<lparr>Chunk = [(1, False), (5, True), (3, False)], End = ''t2''\<rparr>))
            (memclient ''t1'' [5, 6]) ''!r'' 10)) = [(''!r'', [1, 3])]"
proof -
  let ?c = "memstore (Inr \<lparr>Chunk = [(1, False), (5, True), (3, False)], End = ''t2''\<rparr>)"
  let ?h = "memclient ''t1'' [5, 6]"
  let ?pr = "\<lparr>Events =
        [Some \<lparr>RowID = 1, Event_ID = ''$e'', TimelineRowID = - 1, Reactions = [], LastEditRowID = None\<rparr>,
         Some \<lparr>RowID = 3, Event_ID = ''$e'', TimelineRowID = - 3, Reactions = [], LastEditRowID = None\<rparr>],
        HasMore = True\<rparr>"
  have run: "PaginateServer ?c ?h ''!r'' 10 = (Return (Some ?pr, None), snd (PaginateServer ?c ?h ''!r'' 10))"
    by (simp add: prod_eq_iff paginate_defs)
  have get: "Room_Get ?c (DB ?h) ''!r'' = Inr (Some \<lparr>Room_ID = ''!r'', PrevBatch = ''t1'', LazyLoadSummary = None,
          SortingTimestamp = 0, PreviewEventRowID = 0\<rparr>)"
    by (simp add: memstore_def memclient_def)
  have msgs: "Client_Messages ?c ''!r'' (PrevBatch \<lparr>Room_ID = ''!r'', PrevBatch = ''t1'', LazyLoadSummary = None,
          SortingTimestamp = 0, PreviewEventRowID = 0\<rparr>) 10
      = Inr \<lparr>Chunk = [(1, False), (5, True), (3, False)], End = ''t2''\<rparr>"
    by (simp add: memstore_def)
  have "Prepend_calls (snd (PaginateServer ?c ?h ''!r'' 10)) = [(''!r'', [1, 3])]"
    using PaginateServer_compacts_page[OF get _ msgs _ _ _ run]
    by (simp add: memstore_def memclient_def fresh_def)
  moreover have "fst (PaginateServer ?c ?h ''!r'' 10) = Return (Some ?pr, None)"
    using arg_cong[OF run, of fst] by simp
  ultimately show ?thesis by simp
qed

text \<open>
  Claim C2. A call for a room that has an entry in \<open>paginationInterrupter\<close> returns
  \<open>ErrPaginationAlreadyInProgress\<close> and leaves the whole client as it was: no request is
  sent, nothing is stored. A call that inserts its entry runs its body with the entry in
  place (so a call arriving meanwhile is the first case) and the map is what it was
  before once the call is over, whichever way the body ended: a result, an error or a
  panic. The check and the insertion are one step because the lock is held.
\<close>

theorem PaginateServer_single_flight:
  "(roomID \<in> dom (paginationInterrupter h) \<longrightarrow>
      PaginateServer c h roomID limit = (Return (None, Some ErrPaginationAlreadyInProgress), h))
   \<and> (roomID \<notin> dom (paginationInterrupter h) \<longrightarrow>
      fst (PaginateServer c h roomID limit)
        = fst (PaginateServer_body c (h\<lparr>paginationInterrupter := (paginationInterrupter h)(roomID \<mapsto> ())\<rparr>) roomID limit)
      \<and> paginationInterrupter (snd (PaginateServer c h roomID limit)) = paginationInterrupter h)"
proof -
  let ?h1 = "h\<lparr>paginationInterrupter := (paginationInterrupter h)(roomID \<mapsto> ())\<rparr>"
  have "paginationInterrupter (snd (PaginateServer c h roomID limit)) = paginationInterrupter h"
    if "roomID \<notin> dom (paginationInterrupter h)"
  proof -
    have "paginationInterrupter (snd (PaginateServer_body c ?h1 roomID limit))
        = (paginationInterrupter h)(roomID \<mapsto> ())"
      using PaginateServer_body_interrupter[of c ?h1 roomID limit] by simp
    moreover from that have "paginationInterrupter h roomID = None"
      by (cases "paginationInterrupter h roomID") auto
    ultimately show ?thesis using that
      by (auto simp: PaginateServer_def split: prod.splits)
  qed
  then show ?thesis by (simp add: PaginateServer_def split: prod.splits)
qed

text \<open>
  A rejected call while room \<^verbatim>\<open>!r\<close> is being paginated, and a call that fails (the server
  cannot be reached) and still leaves the map empty.
\<close>

theorem PaginateServer_single_flight_witness:
  "PaginateServer (memstore (Inl (ErrExternal ''connection refused'')))
       ((memclient ''t1'' [])\<lparr>paginationInterrupter := [''!r'' \<mapsto> ()]\<rparr>) ''!r'' 10
     = (Return (None, Some ErrPaginationAlreadyInProgress),
        (memclient ''t1'' [])\<lparr>paginationInterrupter := [''!r'' \<mapsto> ()]\<rparr>)
   \<and> fst (PaginateServer (memstore (Inl (ErrExternal ''connection refused''))) (memclient ''t1'' []) ''!r'' 10)
     = Return (None, Some (Errorf ''failed to get messages from server'' (ErrExternal ''connection refused'')))
   \<and> paginationInterrupter
       (snd (PaginateServer (memstore (Inl (ErrExternal ''connection refused''))) (memclient ''t1'' []) ''!r'' 10))
     = Map.empty"
  using PaginateServer_single_flight[of "''!r''"
      "(memclient ''t1'' [])\<lparr>paginationInterrupter := [''!r'' \<mapsto> ()]\<rparr>"
      "memstore (Inl (ErrExternal ''connection refused''))" 10]
    PaginateServer_single_flight[of "''!r''" "memclient ''t1'' []"
      "memstore (Inl (ErrExternal ''connection refused''))" 10]
  by (simp add: memclient_def memstore_def PaginateServer_body_def)

text \<open>
  Claim C3. For a room whose stored cursor is the sentinel, \<^verbatim>\<open>PaginateServer\<close> sends no
  request to the server, and, unless another pagination of the room is in flight, it
  returns an empty list of events with \<open>HasMore = False\<close> and changes nothing.
\<close>

theorem PaginateServer_sentinel_no_request:
  assumes "Room_Get c (DB h) roomID = Inr (Some room)"
    and "PrevBatch room = PrevBatchPaginationComplete c"
  shows "Messages_calls (snd (PaginateServer c h roomID limit)) = Messages_calls h
     \<and> (roomID \<notin> dom (paginationInterrupter h) \<longrightarrow>
          PaginateServer c h roomID limit = (Return (Some \<lparr>Events = [], HasMore = False\<rparr>, None), h))"
  using assms
  by (auto simp: PaginateServer_def PaginateServer_body_def fun_upd_idem domIff)

theorem PaginateServer_sentinel_no_request_witness:
  "Messages_calls (snd (PaginateServer (memstore (Inl (ErrExternal ''connection refused'')))
        (memclient ''complete'' [4, 5]) ''!r'' 10)) = []
   \<and> PaginateServer (memstore (Inl (ErrExternal ''connection refused''))) (memclient ''complete'' [4, 5]) ''!r'' 10
       = (Return (Some \<lparr>Events = [], HasMore = False\<rparr>, None), memclient ''complete'' [4, 5])"
  using PaginateServer_sentinel_no_request[of "memstore (Inl (ErrExternal ''connection refused''))"
      "memclient ''complete'' [4, 5]" "''!r''"
      "\<lparr>Room_ID = ''!r'', PrevBatch = ''complete'', LazyLoadSummary = None,
          SortingTimestamp = 0, PreviewEventRowID = 0\<rparr>" 10]
  by (simp add: memclient_def memstore_def)




text \<open>
  Claim C9 at the input where the code departs from it. The server answers a last page of
  one event with an empty end token. The sentinel is stored and \<open>HasMore\<close> is \<open>True\<close>, as
  the claim says, but the returned list is not empty: it holds one nil entry for the
  event of the chunk, which is never processed nor put in the timeline.
\<close>

theorem PaginateServer_last_page_returns_nil_events:
  "fst (PaginateServer (memstore (Inr \<lparr>Chunk = [(7, False)], End = ''''\<rparr>)) (memclient ''t1'' []) ''!r'' 10)
     = Return (Some \<lparr>Events = [None], HasMore = True\<rparr>, None)
   \<and> DB (snd (PaginateServer (memstore (Inr \<lparr>Chunk = [(7, False)], End = ''''\<rparr>)) (memclient ''t1'' []) ''!r'' 10))
     = \<lparr>mem_prev_batch = ''complete'', mem_timeline = []\<rparr>"
  by (simp add: paginate_defs)

section \<open>Properties of the room list maintainer\<close>

lemmas statestore_defs = applySync_def makeRoomListEntry_def place_entry_def splice_insert_def
  roomList_emit_def StateStore_init_def sync_room_def plain_browser_def new_RoomStateStore_def
  RoomStateStore_applySync_def roomListEntryChanged_def getStateEvent_def Let_def sort_key_def

subsection \<open>Placing one entry\<close>

lemma findLastIndex_sorted:
  "sorted (map f xs) \<Longrightarrow>
     findLastIndex (\<lambda>v. f v \<le> t) xs = int (length (filter (\<lambda>v. f v \<le> t) xs)) - 1"
  for f :: "'a \<Rightarrow> int"
proof (induction xs)
  case Nil
  then show ?case by simp
next
  case (Cons x xs)
  then have ih: "findLastIndex (\<lambda>v. f v \<le> t) xs = int (length (filter (\<lambda>v. f v \<le> t) xs)) - 1"
    and le: "\<forall>y\<in>set xs. f x \<le> f y"
    by simp_all
  show ?case
  proof (cases "filter (\<lambda>v. f v \<le> t) xs = []")
    case True
    then show ?thesis using ih by (simp add: Let_def)
  next
    case False
    then obtain y where "y \<in> set xs" "f y \<le> t"
      by (auto simp: filter_empty_conv)
    with le have "f x \<le> t" by force
    moreover from False have "0 < length (filter (\<lambda>v. f v \<le> t) xs)" by simp
    ultimately show ?thesis using ih by (simp add: Let_def)
  qed
qed

lemma sorted_take_filter:
  "sorted (map f xs) \<Longrightarrow>
     take (length (filter (\<lambda>v. f v \<le> t) xs)) xs = filter (\<lambda>v. f v \<le> t) xs
   \<and> drop (length (filter (\<lambda>v. f v \<le> t) xs)) xs = filter (\<lambda>v. t < f v) xs"
  for f :: "'a \<Rightarrow> int"
proof (induction xs)
  case Nil
  then show ?case by simp
next
  case (Cons x xs)
  then have ih: "take (length (filter (\<lambda>v. f v \<le> t) xs)) xs = filter (\<lambda>v. f v \<le> t) xs"
      "drop (length (filter (\<lambda>v. f v \<le> t) xs)) xs = filter (\<lambda>v. t < f v) xs"
    and le: "\<forall>y\<in>set xs. f x \<le> f y"
    by simp_all
  show ?case
  proof (cases "f x \<le> t")
    case True
    then show ?thesis using ih by simp
  next
    case False
    with le have "\<forall>y\<in>set xs. \<not> f y \<le> t" by force
    then have "filter (\<lambda>v. f v \<le> t) xs = []" "filter (\<lambda>v. t < f v) xs = xs"
      by (auto simp: filter_empty_conv filter_id_conv)
    then show ?thesis using False by simp
  qed
qed

lemma sorted_le_last:
  "sorted (map f xs) \<Longrightarrow> xs \<noteq> [] \<Longrightarrow> \<forall>v\<in>set xs. f v \<le> f (last xs)"
  for f :: "'a \<Rightarrow> int"
  by (induction xs) auto

text \<open>
  On a sorted list, an entry that is not sent to the front by the test for a timestamp
  \<open>\<le> 0\<close> lands behind every entry that is not younger and before every younger one.
\<close>

lemma place_entry_stable:
  assumes "sorted (map sorting_timestamp xs)"
    and "0 < sorting_timestamp e \<or> xs = [] \<or> sorting_timestamp (last xs) \<le> sorting_timestamp e
         \<or> sorting_timestamp e < sorting_timestamp (hd xs)"
  shows "place_entry e xs = filter (\<lambda>v. sorting_timestamp v \<le> sorting_timestamp e) xs
            @ e # filter (\<lambda>v. sorting_timestamp e < sorting_timestamp v) xs"
proof -
  let ?t = "sorting_timestamp e"
  consider (push) "xs = [] \<or> sorting_timestamp (last xs) \<le> ?t"
    | (front) "xs \<noteq> []" "\<not> sorting_timestamp (last xs) \<le> ?t" "?t < sorting_timestamp (hd xs)"
    | (mid) "xs \<noteq> []" "\<not> sorting_timestamp (last xs) \<le> ?t" "\<not> ?t < sorting_timestamp (hd xs)" "0 < ?t"
    using assms(2) by fastforce
  then show ?thesis
  proof cases
    case push
    have "\<forall>v\<in>set xs. sorting_timestamp v \<le> ?t"
    proof (cases "xs = []")
      case True
      then show ?thesis by simp
    next
      case False
      with push have l: "sorting_timestamp (last xs) \<le> ?t" by simp
      have "\<forall>v\<in>set xs. sorting_timestamp v \<le> sorting_timestamp (last xs)"
        using sorted_le_last[OF assms(1) False] .
      with l show ?thesis by force
    qed
    then have "filter (\<lambda>v. sorting_timestamp v \<le> ?t) xs = xs"
      "filter (\<lambda>v. ?t < sorting_timestamp v) xs = []"
      by (auto simp: filter_empty_conv filter_id_conv)
    then show ?thesis using push by (auto simp: place_entry_def)
  next
    case front
    have "\<forall>v\<in>set xs. sorting_timestamp (hd xs) \<le> sorting_timestamp v"
      using assms(1) front(1) by (cases xs) auto
    with front(3) have "\<forall>v\<in>set xs. ?t < sorting_timestamp v" by force
    then have "filter (\<lambda>v. sorting_timestamp v \<le> ?t) xs = []"
      "filter (\<lambda>v. ?t < sorting_timestamp v) xs = xs"
      by (auto simp: filter_empty_conv filter_id_conv)
    then show ?thesis using front by (simp add: place_entry_def)
  next
    case mid
    have "place_entry e xs = splice_insert (findLastIndex (\<lambda>v. sorting_timestamp v \<le> ?t) xs + 1) e xs"
      using mid by (simp add: place_entry_def Let_def)
    also have "\<dots> = take (length (filter (\<lambda>v. sorting_timestamp v \<le> ?t) xs)) xs
         @ e # drop (length (filter (\<lambda>v. sorting_timestamp v \<le> ?t) xs)) xs"
      using findLastIndex_sorted[OF assms(1), of ?t] by (simp add: splice_insert_def)
    finally show ?thesis using sorted_take_filter[OF assms(1), of ?t] by simp
  qed
qed

lemma place_entry_splits:
  "\<exists>ys zs. xs = ys @ zs \<and> place_entry e xs = ys @ e # zs"
proof -
  have "place_entry e xs = xs @ [e] \<or> place_entry e xs = e # xs
      \<or> (\<exists>n. place_entry e xs = take n xs @ e # drop n xs)"
    unfolding place_entry_def splice_insert_def Let_def by (simp; blast)
  then consider (push) "place_entry e xs = xs @ [e]" | (front) "place_entry e xs = e # xs"
    | (mid) n where "place_entry e xs = take n xs @ e # drop n xs"
    by blast
  then show ?thesis
  proof cases
    case push
    then show ?thesis by (intro exI[of _ xs] exI[of _ "[]"]) simp
  next
    case front
    then show ?thesis by (intro exI[of _ "[]"] exI[of _ xs]) simp
  next
    case mid
    then show ?thesis by (intro exI[of _ "take n xs"] exI[of _ "drop n xs"]) simp
  qed
qed

lemma set_place_entry [simp]: "set (place_entry e xs) = insert e (set xs)"
  using place_entry_splits[of xs e] by auto

lemma distinct_place_entry:
  "distinct (map room_id (place_entry e xs)) \<longleftrightarrow> room_id e \<notin> room_id ` set xs \<and> distinct (map room_id xs)"
  using place_entry_splits[of xs e] by auto

lemma sorted_place_entry:
  assumes "sorted (map sorting_timestamp xs)"
    and "\<forall>x\<in>set xs. 0 \<le> sorting_timestamp x"
    and "0 \<le> sorting_timestamp e"
  shows "sorted (map sorting_timestamp (place_entry e xs))"
proof (cases "0 < sorting_timestamp e \<or> xs = [] \<or> sorting_timestamp (last xs) \<le> sorting_timestamp e
         \<or> sorting_timestamp e < sorting_timestamp (hd xs)")
  case True
  have "sorted (map sorting_timestamp (filter (\<lambda>v. sorting_timestamp v \<le> sorting_timestamp e) xs
            @ e # filter (\<lambda>v. sorting_timestamp e < sorting_timestamp v) xs))"
    using assms(1) by (auto simp: sorted_append sorted_filter intro: order_trans less_imp_le)
  then show ?thesis using place_entry_stable[OF assms(1) True] by simp
next
  case False
  then have "place_entry e xs = e # xs" "sorting_timestamp e = 0"
    using assms(3) by (auto simp: place_entry_def)
  then show ?thesis using assms(1,2) by simp
qed

lemma foldl_place_entry:
  assumes "sorted (map sorting_timestamp xs)"
    and "\<forall>x\<in>set xs. 0 \<le> sorting_timestamp x"
    and "\<forall>e\<in>set es. 0 \<le> sorting_timestamp e"
  shows "sorted (map sorting_timestamp (foldl (\<lambda>l entry. place_entry entry l) xs es))
     \<and> set (foldl (\<lambda>l entry. place_entry entry l) xs es) = set xs \<union> set es"
  using assms
proof (induction es arbitrary: xs)
  case Nil
  then show ?case by simp
next
  case (Cons e es)
  have "sorted (map sorting_timestamp (place_entry e xs))"
    using sorted_place_entry[of xs e] Cons.prems by simp
  moreover have "\<forall>x\<in>set (place_entry e xs). 0 \<le> sorting_timestamp x"
    using Cons.prems by simp
  ultimately show ?case using Cons.IH[of "place_entry e xs"] Cons.prems(3) by auto
qed

lemma foldl_place_entry_ids:
  "map room_id (foldl (\<lambda>l entry. place_entry entry l) xs es) \<in> {l. set l = set (map room_id xs) \<union> set (map room_id es)}"
  by (induction es arbitrary: xs) auto

lemma foldl_place_entry_distinct:
  "distinct (map room_id (foldl (\<lambda>l entry. place_entry entry l) xs es))
     \<longleftrightarrow> distinct (map room_id xs) \<and> distinct (map room_id es)
          \<and> room_id ` set xs \<inter> room_id ` set es = {}"
proof (induction es arbitrary: xs)
  case Nil
  then show ?case by simp
next
  case (Cons e es)
  show ?case
    unfolding foldl_Cons Cons.IH distinct_place_entry by auto
qed

subsection \<open>The loop over the rooms of a payload\<close>

lemma Map_set_fresh: "k \<notin> fst ` set m \<Longrightarrow> Map_set m k v = m @ [(k, v)]"
  by (induction m) auto

lemma makeRoomListEntry_fields [simp]:
  "room_id (makeRoomListEntry b rs d r) = meta_room_id (meta d)"
  "sorting_timestamp (makeRoomListEntry b rs d r) = meta_sorting_timestamp (meta d)"
  by (simp_all add: makeRoomListEntry_def Let_def)

lemma applySync_rooms_props:
  assumes "applySync_rooms b resync rest (rs, ch, sh) = (rs', ch', sh')"
    and "distinct (map fst rest)"
    and "\<forall>(k, d)\<in>set rest. meta_room_id (meta d) = k"
    and "fst ` set ch \<inter> fst ` set rest = {}"
    and "distinct (map fst ch)"
  shows "dom rs' = dom rs \<union> fst ` set rest
    \<and> distinct (map fst ch')
    \<and> fst ` set ch' = fst ` set ch
         \<union> {k. \<exists>d. (k, d) \<in> set rest \<and> \<not> resync \<and> (rs k = None \<or> roomListEntryChanged d (the (rs k)))}
    \<and> (\<forall>(k, e)\<in>set ch'. (k, e) \<in> set ch
         \<or> (\<exists>d. (k, d) \<in> set rest \<and> room_id e = k \<and> sorting_timestamp e = meta_sorting_timestamp (meta d)))"
  using assms
proof (induction rest arbitrary: rs ch sh)
  case Nil
  then show ?case by auto
next
  case (Cons p rest)
  obtain k0 d0 where p: "p = (k0, d0)" by (cases p)
  define room where "room = (case rs k0 of None \<Rightarrow> new_RoomStateStore (meta d0) | Some r \<Rightarrow> r)"
  define changed where "changed \<longleftrightarrow> \<not> resync \<and> (rs k0 = None \<or> roomListEntryChanged d0 room)"
  define rs0 where "rs0 = rs(k0 \<mapsto> RoomStateStore_applySync room d0)"
  define e0 where "e0 = makeRoomListEntry b rs0 d0 (Some (RoomStateStore_applySync room d0))"
  define ch0 where "ch0 = (if changed then Map_set ch k0 e0 else ch)"
  define sh0 where "sh0 = (if notifying b then sh @ map (\<lambda>(r, snd). (k0, r, snd)) (sr_notifications d0) else sh)"
  have run: "applySync_rooms b resync rest (rs0, ch0, sh0) = (rs', ch', sh')"
    using Cons.prems(1) unfolding p room_def changed_def rs0_def e0_def ch0_def sh0_def
    by (simp only: applySync_rooms.simps Let_def)
  have k0: "k0 \<notin> fst ` set ch" "k0 \<notin> fst ` set rest" "meta_room_id (meta d0) = k0"
    using Cons.prems(2,3,4) by (auto simp: p)
  have ch0: "ch0 = (if changed then ch @ [(k0, e0)] else ch)"
    using k0(1) by (simp add: ch0_def Map_set_fresh)
  have e0: "room_id e0 = k0" "sorting_timestamp e0 = meta_sorting_timestamp (meta d0)"
    using k0(3) by (simp_all add: e0_def)
  have pre: "distinct (map fst rest)" "\<forall>(k, d)\<in>set rest. meta_room_id (meta d) = k"
    "fst ` set ch0 \<inter> fst ` set rest = {}" "distinct (map fst ch0)"
    using Cons.prems(2,3,4,5) k0 unfolding ch0 by (auto simp: p)
  note ih = Cons.IH[OF run pre]
  have notk0: "\<And>d. (k0, d) \<notin> set rest"
    using k0(2) by (auto simp: rev_image_eqI)
  have same: "\<And>k d. (k, d) \<in> set rest \<Longrightarrow> rs0 k = rs k"
    using notk0 by (auto simp: rs0_def)
  have chg: "changed = (\<not> resync \<and> (rs k0 = None \<or> roomListEntryChanged d0 (the (rs k0))))"
    unfolding changed_def room_def by (cases "rs k0") auto
  have c1: "dom rs' = dom rs \<union> fst ` set (p # rest)"
    using ih by (auto simp: p rs0_def)
  have c2: "distinct (map fst ch')" using ih by simp
  have s1: "{k. \<exists>d. (k, d) \<in> set rest \<and> \<not> resync \<and> (rs0 k = None \<or> roomListEntryChanged d (the (rs0 k)))}
      = {k. \<exists>d. (k, d) \<in> set rest \<and> \<not> resync \<and> (rs k = None \<or> roomListEntryChanged d (the (rs k)))}"
    using same by auto
  have s2: "fst ` set ch0 = fst ` set ch \<union> {k. k = k0 \<and> changed}"
    unfolding ch0 by auto
  have s3: "{k. \<exists>d. (k, d) \<in> set (p # rest) \<and> \<not> resync \<and> (rs k = None \<or> roomListEntryChanged d (the (rs k)))}
      = {k. k = k0 \<and> changed}
        \<union> {k. \<exists>d. (k, d) \<in> set rest \<and> \<not> resync \<and> (rs k = None \<or> roomListEntryChanged d (the (rs k)))}"
    unfolding p chg using notk0 by auto
  have "fst ` set ch' = fst ` set ch0
         \<union> {k. \<exists>d. (k, d) \<in> set rest \<and> \<not> resync \<and> (rs0 k = None \<or> roomListEntryChanged d (the (rs0 k)))}"
    using ih by blast
  then have c3: "fst ` set ch' = fst ` set ch
         \<union> {k. \<exists>d. (k, d) \<in> set (p # rest) \<and> \<not> resync \<and> (rs k = None \<or> roomListEntryChanged d (the (rs k)))}"
    unfolding s1 s2 s3 by (simp add: Un_assoc)
  have ih4: "\<forall>(k, e)\<in>set ch'. (k, e) \<in> set ch0
         \<or> (\<exists>d. (k, d) \<in> set rest \<and> room_id e = k \<and> sorting_timestamp e = meta_sorting_timestamp (meta d))"
    using ih by blast
  have c4: "\<forall>(k, e)\<in>set ch'. (k, e) \<in> set ch
         \<or> (\<exists>d. (k, d) \<in> set (p # rest) \<and> room_id e = k \<and> sorting_timestamp e = meta_sorting_timestamp (meta d))"
  proof (clarify)
    fix k e assume in': "(k, e) \<in> set ch'"
      and no: "\<not> (\<exists>d. (k, d) \<in> set (p # rest) \<and> room_id e = k \<and> sorting_timestamp e = meta_sorting_timestamp (meta d))"
    from ih4 in' have "(k, e) \<in> set ch0
       \<or> (\<exists>d. (k, d) \<in> set rest \<and> room_id e = k \<and> sorting_timestamp e = meta_sorting_timestamp (meta d))"
      by blast
    with no have "(k, e) \<in> set ch0" by auto
    then have "(k, e) \<in> set ch \<or> (k, e) = (k0, e0)"
      unfolding ch0 by (auto split: if_splits)
    moreover have "(k, e) \<noteq> (k0, e0)"
      using no e0 by (auto simp: p)
    ultimately show "(k, e) \<in> set ch" by blast
  qed
  show ?case using c1 c2 c3 c4 by blast
qed

subsection \<open>One call of \<^verbatim>\<open>applySync\<close>\<close>

lemma distinct_map_sort_key:
  "distinct (map g (sort_key f xs)) = distinct (map g xs)"
  by (simp add: distinct_map)

lemma applySync_unfold:
  assumes "applySync_rooms b (roomList_current s = []) (sync_rooms sync) (rooms s, [], showNotification_calls s) = (rs, ch, sh)"
  shows "roomList_current s = [] \<Longrightarrow>
           applySync b s sync = roomList_emit (sort_key sorting_timestamp
                  (map (\<lambda>(k, entry). makeRoomListEntry b rs entry None) (sync_rooms sync)))
                  (s\<lparr>rooms := rs, showNotification_calls := sh\<rparr>)"
    and "roomList_current s \<noteq> [] \<Longrightarrow> ch \<noteq> [] \<Longrightarrow>
           applySync b s sync = roomList_emit (foldl (\<lambda>l entry. place_entry entry l)
                               (filter (\<lambda>entry. room_id entry \<notin> fst ` set ch) (roomList_current s))
                               (map snd ch))
                  (s\<lparr>rooms := rs, showNotification_calls := sh\<rparr>)"
    and "roomList_current s \<noteq> [] \<Longrightarrow> ch = [] \<Longrightarrow>
           applySync b s sync = s\<lparr>rooms := rs, showNotification_calls := sh\<rparr>"
  using assms by (simp_all add: applySync_def Let_def)

lemma applySync_preserves:
  assumes inv: "roomList_inv s"
    and nn: "\<forall>e\<in>set (roomList_current s). 0 \<le> sorting_timestamp e"
    and wf: "well_formed_sync sync"
    and ts: "nonneg_timestamps sync"
  shows "roomList_inv (applySync b s sync)
     \<and> (\<forall>e\<in>set (roomList_current (applySync b s sync)). 0 \<le> sorting_timestamp e)"
proof -
  let ?resync = "roomList_current s = []"
  obtain rs ch sh where run:
    "applySync_rooms b ?resync (sync_rooms sync) (rooms s, [], showNotification_calls s) = (rs, ch, sh)"
    by (metis prod_cases3)
  from wf have wf': "distinct (map fst (sync_rooms sync))"
    "\<forall>(k, d)\<in>set (sync_rooms sync). meta_room_id (meta d) = k"
    by (simp_all add: well_formed_sync_def)
  have props: "dom rs = dom (rooms s) \<union> fst ` set (sync_rooms sync)"
    "distinct (map fst ch)"
    "fst ` set ch = {k. \<exists>d. (k, d) \<in> set (sync_rooms sync) \<and> \<not> ?resync
         \<and> (rooms s k = None \<or> roomListEntryChanged d (the (rooms s k)))}"
    "\<forall>(k, e)\<in>set ch. \<exists>d. (k, d) \<in> set (sync_rooms sync) \<and> room_id e = k
         \<and> sorting_timestamp e = meta_sorting_timestamp (meta d)"
    using applySync_rooms_props[OF run wf'] by simp_all
  show ?thesis
  proof (cases ?resync)
    case True
    let ?l = "map (\<lambda>(k, entry). makeRoomListEntry b rs entry None) (sync_rooms sync)"
    have ids: "map room_id ?l = map fst (sync_rooms sync)"
      using wf'(2) by (auto simp: case_prod_beta)
    have emp: "dom (rooms s) = {}" using inv True by (simp add: roomList_inv_def)
    have "distinct (map room_id (sort_key sorting_timestamp ?l))"
      unfolding distinct_map_sort_key ids using wf'(1) .
    moreover have "set (map room_id (sort_key sorting_timestamp ?l)) = dom rs"
    proof -
      have "set (map room_id (sort_key sorting_timestamp ?l)) = set (map room_id ?l)"
        by (simp only: set_map set_sort)
      also have "\<dots> = set (map fst (sync_rooms sync))" by (simp only: ids)
      also have "\<dots> = dom rs" using props(1) emp by simp
      finally show ?thesis .
    qed
    moreover have "sorted (map sorting_timestamp (sort_key sorting_timestamp ?l))"
      by (rule sorted_sort_key)
    moreover have "\<forall>e\<in>set (sort_key sorting_timestamp ?l). 0 \<le> sorting_timestamp e"
      using ts by (auto simp: nonneg_timestamps_def)
    ultimately show ?thesis
      unfolding applySync_unfold(1)[OF run True]
      by (simp add: roomList_inv_def roomList_emit_def)
  next
    case False
    have keys_sub: "fst ` set ch \<subseteq> fst ` set (sync_rooms sync)"
      unfolding props(3) by force
    have new_in: "fst ` set (sync_rooms sync) - dom (rooms s) \<subseteq> fst ` set ch"
      unfolding props(3) using False by (auto simp: domIff)
    show ?thesis
    proof (cases "ch = []")
      case True
      with new_in have "fst ` set (sync_rooms sync) \<subseteq> dom (rooms s)" by auto
      with props(1) have "dom rs = dom (rooms s)" by auto
      then show ?thesis
        unfolding applySync_unfold(3)[OF run False True]
        using inv nn by (simp add: roomList_inv_def)
    next
      case nonempty: False
      let ?keep = "filter (\<lambda>entry. room_id entry \<notin> fst ` set ch) (roomList_current s)"
      let ?new = "map snd ch"
      let ?l = "foldl (\<lambda>l entry. place_entry entry l) ?keep ?new"
      have idnew: "map room_id ?new = map fst ch"
        using props(4) by (auto simp: case_prod_beta)
      have nnnew: "\<forall>e\<in>set ?new. 0 \<le> sorting_timestamp e"
        using props(4) ts by (fastforce simp: nonneg_timestamps_def)
      have sk: "sorted (map sorting_timestamp ?keep)" "\<forall>x\<in>set ?keep. 0 \<le> sorting_timestamp x"
        "distinct (map room_id ?keep)"
        using inv nn by (auto simp: roomList_inv_def sorted_filter distinct_map_filter)
      have "set (map room_id ?new) = set (map fst ch)" by (simp only: idnew)
      then have idset: "room_id ` set ?new = fst ` set ch" by (simp only: set_map)
      have "sorted (map sorting_timestamp ?l)" "set ?l = set ?keep \<union> set ?new"
        using foldl_place_entry[OF sk(1,2) nnnew] by simp_all
      moreover have "distinct (map room_id ?l)"
        unfolding foldl_place_entry_distinct idnew using sk(3) props(2) idset by auto
      moreover have "room_id ` set ?keep = dom (rooms s) - fst ` set ch"
        using inv by (auto simp: roomList_inv_def)
      ultimately have "sorted (map sorting_timestamp ?l)" "distinct (map room_id ?l)"
        "set (map room_id ?l) = dom rs" "\<forall>e\<in>set ?l. 0 \<le> sorting_timestamp e"
        using props(1) keys_sub new_in idset sk(2) nnnew by (auto simp: image_Un)
      then show ?thesis
        unfolding applySync_unfold(2)[OF run False nonempty]
        by (simp add: roomList_inv_def roomList_emit_def)
    qed
  qed
qed

subsection \<open>Claims about \<^verbatim>\<open>StateStore.applySync\<close>\<close>

text \<open>
  Claim C4, as stated, fails for negative timestamps: line 196 sends every changed entry
  whose timestamp is \<open>\<le> 0\<close> and smaller than the tail's to the front of the list, whatever
  the head is. Rooms \<^verbatim>\<open>!a\<close> (timestamp -5) and \<^verbatim>\<open>!b\<close> (10) are listed; room \<^verbatim>\<open>!c\<close> with
  timestamp -3 then arrives and is put before \<^verbatim>\<open>!a\<close>.
\<close>

theorem roomList_unsorted_with_negative_timestamp:
  "map sorting_timestamp (roomList_current
     (applySync plain_browser
        (applySync plain_browser StateStore_init
           \<lparr>sync_rooms = [(''!a'', sync_room ''!a'' (- 5)), (''!b'', sync_room ''!b'' 10)]\<rparr>)
        \<lparr>sync_rooms = [(''!c'', sync_room ''!c'' (- 3))]\<rparr>)) = [- 3, - 5, 10]
   \<and> \<not> sorted [- 3, - 5, 10 :: int]"
  by (simp add: statestore_defs)

text \<open>
  Claim C4, amended. For every sequence of well-formed sync payloads whose sorting
  timestamps are not negative, applied from the empty store, the room list is sorted
  ascending by \<open>sorting_timestamp\<close> and holds exactly one entry for every known room. A new
  or changed entry is appended when the list is empty or its timestamp is at least the
  tail's; otherwise it is put first when its timestamp is \<open>\<le> 0\<close> or smaller than the
  head's; otherwise it goes right behind the last entry whose timestamp is not greater
  than its own.
\<close>

theorem roomList_sorted_one_entry_per_room:
  assumes "\<forall>sync\<in>set syncs. well_formed_sync sync \<and> nonneg_timestamps sync"
  shows "roomList_inv (foldl (applySync b) StateStore_init syncs)
     \<and> (\<forall>e xs. sorted (map sorting_timestamp xs) \<longrightarrow>
          place_entry e xs =
            (if xs = [] \<or> sorting_timestamp (last xs) \<le> sorting_timestamp e then xs @ [e]
             else if sorting_timestamp e \<le> 0 \<or> sorting_timestamp e < sorting_timestamp (hd xs) then e # xs
             else filter (\<lambda>v. sorting_timestamp v \<le> sorting_timestamp e) xs
                    @ e # filter (\<lambda>v. sorting_timestamp e < sorting_timestamp v) xs))"
proof
  have "roomList_inv (foldl (applySync b) StateStore_init syncs)
      \<and> (\<forall>e\<in>set (roomList_current (foldl (applySync b) StateStore_init syncs)). 0 \<le> sorting_timestamp e)"
    using assms
  proof (induction syncs rule: rev_induct)
    case Nil
    then show ?case by (simp add: roomList_inv_def StateStore_init_def)
  next
    case (snoc sync syncs)
    then show ?case
      using applySync_preserves[of "foldl (applySync b) StateStore_init syncs" sync b] by simp
  qed
  then show "roomList_inv (foldl (applySync b) StateStore_init syncs)" ..
next
  show "\<forall>e xs. sorted (map sorting_timestamp xs) \<longrightarrow>
          place_entry e xs =
            (if xs = [] \<or> sorting_timestamp (last xs) \<le> sorting_timestamp e then xs @ [e]
             else if sorting_timestamp e \<le> 0 \<or> sorting_timestamp e < sorting_timestamp (hd xs) then e # xs
             else filter (\<lambda>v. sorting_timestamp v \<le> sorting_timestamp e) xs
                    @ e # filter (\<lambda>v. sorting_timestamp e < sorting_timestamp v) xs)"
  proof (intro allI impI)
    fix e and xs :: "RoomListEntry list"
    assume s: "sorted (map sorting_timestamp xs)"
    show "place_entry e xs =
            (if xs = [] \<or> sorting_timestamp (last xs) \<le> sorting_timestamp e then xs @ [e]
             else if sorting_timestamp e \<le> 0 \<or> sorting_timestamp e < sorting_timestamp (hd xs) then e # xs
             else filter (\<lambda>v. sorting_timestamp v \<le> sorting_timestamp e) xs
                    @ e # filter (\<lambda>v. sorting_timestamp e < sorting_timestamp v) xs)"
    proof (cases "xs = [] \<or> sorting_timestamp (last xs) \<le> sorting_timestamp e
        \<or> sorting_timestamp e \<le> 0 \<or> sorting_timestamp e < sorting_timestamp (hd xs)")
      case True
      then show ?thesis by (auto simp: place_entry_def)
    next
      case False
      then have "0 < sorting_timestamp e" by simp
      from place_entry_stable[OF s, of e] this False show ?thesis by simp
    qed
  qed
qed

theorem roomList_sorted_one_entry_per_room_witness:
  "roomList_inv (foldl (applySync plain_browser) StateStore_init
      [\<lparr>sync_rooms = [(''!a'', sync_room ''!a'' 7), (''!b'', sync_room ''!b'' 0)]\<rparr>,
       \<lparr>sync_rooms = [(''!c'', sync_room ''!c'' 3), (''!a'', sync_room ''!a'' 2)]\<rparr>])
   \<and> place_entry (makeRoomListEntry plain_browser Map.empty (sync_room ''!c'' 3) None)
        [makeRoomListEntry plain_browser Map.empty (sync_room ''!b'' 0) None,
         makeRoomListEntry plain_browser Map.empty (sync_room ''!a'' 7) None]
      = [makeRoomListEntry plain_browser Map.empty (sync_room ''!b'' 0) None,
         makeRoomListEntry plain_browser Map.empty (sync_room ''!c'' 3) None,
         makeRoomListEntry plain_browser Map.empty (sync_room ''!a'' 7) None]"
proof -
  let ?syncs = "[\<lparr>sync_rooms = [(''!a'', sync_room ''!a'' 7), (''!b'', sync_room ''!b'' 0)]\<rparr>,
       \<lparr>sync_rooms = [(''!c'', sync_room ''!c'' 3), (''!a'', sync_room ''!a'' 2)]\<rparr>]"
  have hyp: "\<forall>sync\<in>set ?syncs. well_formed_sync sync \<and> nonneg_timestamps sync"
    by (simp add: well_formed_sync_def nonneg_timestamps_def sync_room_def)
  note th = roomList_sorted_one_entry_per_room[OF hyp, of plain_browser]
  have "roomList_inv (foldl (applySync plain_browser) StateStore_init ?syncs)"
    using th by (rule conjunct1)
  moreover have "place_entry (makeRoomListEntry plain_browser Map.empty (sync_room ''!c'' 3) None)
        [makeRoomListEntry plain_browser Map.empty (sync_room ''!b'' 0) None,
         makeRoomListEntry plain_browser Map.empty (sync_room ''!a'' 7) None]
      = [makeRoomListEntry plain_browser Map.empty (sync_room ''!b'' 0) None,
         makeRoomListEntry plain_browser Map.empty (sync_room ''!c'' 3) None,
         makeRoomListEntry plain_browser Map.empty (sync_room ''!a'' 7) None]"
    using conjunct2[OF th, rule_format,
        where xs = "[makeRoomListEntry plain_browser Map.empty (sync_room ''!b'' 0) None,
                     makeRoomListEntry plain_browser Map.empty (sync_room ''!a'' 7) None]"
          and e = "makeRoomListEntry plain_browser Map.empty (sync_room ''!c'' 3) None"]
    by (simp add: sync_room_def makeRoomListEntry_def Let_def)
  ultimately show ?thesis by (rule conjI)
qed

text \<open>
  Claim C5, as stated, fails for a room the store has not seen before: line 173 counts it
  as changed without comparing anything. Room \<^verbatim>\<open>!a\<close> is listed; a delta brings the new room
  \<^verbatim>\<open>!b\<close>, whose metadata compare unchanged with the store just created from them, and a
  second notification is emitted.
\<close>

theorem new_room_emits_without_change:
  "roomList_current (applySync plain_browser StateStore_init \<lparr>sync_rooms = [(''!a'', sync_room ''!a'' 7)]\<rparr>) \<noteq> []
   \<and> \<not> roomListEntryChanged (sync_room ''!b'' 9) (new_RoomStateStore (meta (sync_room ''!b'' 9)))
   \<and> length (roomList_emitted (applySync plain_browser StateStore_init \<lparr>sync_rooms = [(''!a'', sync_room ''!a'' 7)]\<rparr>)) = 1
   \<and> length (roomList_emitted
        (applySync plain_browser
           (applySync plain_browser StateStore_init \<lparr>sync_rooms = [(''!a'', sync_room ''!a'' 7)]\<rparr>)
           \<lparr>sync_rooms = [(''!b'', sync_room ''!b'' 9)]\<rparr>)) = 2"
  by (simp add: statestore_defs)

text \<open>
  Claim C5, amended. \<^verbatim>\<open>applySync\<close> emits a room-list notification, carrying the updated
  list, if and only if the current list is empty (first population) or at least one
  touched room is new to the store or differs from the stored room in the sorting
  timestamp, one of the three unread counters or the preview-event row identifier, or has
  its preview event among the events of the delta. When every touched room is known and
  compares unchanged and the list is not empty, nothing is emitted.
\<close>

theorem applySync_emits_iff_changed:
  assumes wf: "well_formed_sync sync"
  shows "roomList_emitted (applySync b s sync) = roomList_emitted s
     @ (if roomList_current s = []
           \<or> (\<exists>(k, d)\<in>set (sync_rooms sync). rooms s k = None \<or> roomListEntryChanged d (the (rooms s k)))
        then [roomList_current (applySync b s sync)] else [])"
proof -
  let ?resync = "roomList_current s = []"
  obtain rs ch sh where run:
    "applySync_rooms b ?resync (sync_rooms sync) (rooms s, [], showNotification_calls s) = (rs, ch, sh)"
    by (metis prod_cases3)
  from wf have wf': "distinct (map fst (sync_rooms sync))"
    "\<forall>(k, d)\<in>set (sync_rooms sync). meta_room_id (meta d) = k"
    by (simp_all add: well_formed_sync_def)
  have keys: "fst ` set ch = {k. \<exists>d. (k, d) \<in> set (sync_rooms sync) \<and> \<not> ?resync
         \<and> (rooms s k = None \<or> roomListEntryChanged d (the (rooms s k)))}"
    using applySync_rooms_props[OF run wf'] by simp
  show ?thesis
  proof (cases ?resync)
    case True
    then show ?thesis
      unfolding applySync_unfold(1)[OF run True] by (simp add: roomList_emit_def)
  next
    case False
    have iff: "ch \<noteq> [] \<longleftrightarrow>
       (\<exists>(k, d)\<in>set (sync_rooms sync). rooms s k = None \<or> roomListEntryChanged d (the (rooms s k)))"
    proof -
      have "ch \<noteq> [] \<longleftrightarrow> fst ` set ch \<noteq> {}" by simp
      also have "\<dots> \<longleftrightarrow> (\<exists>k d. (k, d) \<in> set (sync_rooms sync)
           \<and> (rooms s k = None \<or> roomListEntryChanged d (the (rooms s k))))"
        unfolding keys using False by blast
      finally show ?thesis by auto
    qed
    show ?thesis
    proof (cases "ch = []")
      case True
      with iff show ?thesis
        unfolding applySync_unfold(3)[OF run False True] using False by simp
    next
      case nonempty: False
      with iff show ?thesis
        unfolding applySync_unfold(2)[OF run False nonempty] using False
        by (simp add: roomList_emit_def)
    qed
  qed
qed

text \<open>The same metadata twice: the second payload emits nothing.\<close>

theorem applySync_emits_iff_changed_witness:
  "roomList_emitted
     (applySync plain_browser
        (applySync plain_browser StateStore_init \<lparr>sync_rooms = [(''!a'', sync_room ''!a'' 7)]\<rparr>)
        \<lparr>sync_rooms = [(''!a'', sync_room ''!a'' 7)]\<rparr>)
   = roomList_emitted (applySync plain_browser StateStore_init \<lparr>sync_rooms = [(''!a'', sync_room ''!a'' 7)]\<rparr>)"
  using applySync_emits_iff_changed[of "\<lparr>sync_rooms = [(''!a'', sync_room ''!a'' 7)]\<rparr>" plain_browser
      "applySync plain_browser StateStore_init \<lparr>sync_rooms = [(''!a'', sync_room ''!a'' 7)]\<rparr>"]
  by (simp add: well_formed_sync_def statestore_defs)

section \<open>Properties of the initial room list\<close>

lemmas initial_data_defs = sendInitialData_def stored_rooms_env_def stored_GetBySortTS_def
  stored_room_def BatchSize_def Hour_def preview_events_def sort_key_def

lemma Map_set_keys: "fst ` set (Map_set m k v) = insert k (fst ` set m)"
  by (induction m) (auto simp: rev_image_eqI split: if_splits)

text \<open>
  A batch holds only rooms whose timestamp differs from that of the last fetched room:
  the rooms that share it are left for a later batch.
\<close>

lemma collect_rooms_keys:
  "collect_rooms env t fetched (m, p) = Inr (m', p') \<Longrightarrow>
     fst ` set p' \<subseteq> fst ` set p \<union> Room_ID ` {r \<in> set fetched. SortingTimestamp r \<noteq> t}"
proof (induction fetched arbitrary: m p)
  case Nil
  then show ?case by simp
next
  case (Cons room rest)
  show ?case
  proof (cases "SortingTimestamp room = t")
    case True
    with Cons.prems show ?thesis by auto
  next
    case False
    with Cons.prems obtain evs where
      "collect_rooms env t rest (SortingTimestamp room,
          Map_set p (Room_ID room) \<lparr>Meta = room, SyncRoom_Events = evs\<rparr>) = Inr (m', p')"
      by (auto split: sum.splits)
    from Cons.IH[OF this] False show ?thesis
      by (auto simp: Map_set_keys)
  qed
qed

text \<open>
  When a full batch of rooms shares one timestamp, the cursor does not move and the next
  fetch is the same: the loop does not end by itself.
\<close>

lemma stuck_batch:
  assumes "GetBySortTS env maxTS BatchSize = Inr fetched"
    and "length fetched = BatchSize"
    and "\<forall>r\<in>set fetched. SortingTimestamp r = t"
    and "\<And>p. Marshal env p = None" and "\<And>i. writeCmd env i = None"
  shows "sendInitialData_loop env fuel maxTS roomCount sent = None"
proof (induction fuel arbitrary: roomCount sent)
  case 0
  then show ?case by simp
next
  case (Suc fuel)
  from assms(2) have ne: "fetched \<noteq> []" by (auto simp: BatchSize_def)
  then obtain r rest where f: "fetched = r # rest" by (cases fetched) auto
  have "SortingTimestamp r = SortingTimestamp (last fetched)"
  proof -
    have "r \<in> set fetched" "last fetched \<in> set fetched" using ne f by simp_all
    with assms(3) show ?thesis by simp
  qed
  then have "collect_rooms env (SortingTimestamp (last fetched)) fetched (maxTS, []) = Inr (maxTS, [])"
    by (simp add: f)
  then show ?case using assms(1,2,4,5) Suc.IH by simp
qed

text \<open>
  Whatever the database answers: when the fetch brings fewer rooms than a full batch, the
  function ends with this batch, and the last fetched room is not in it.
\<close>

lemma last_batch_omits_last_room:
  assumes "GetBySortTS env maxTS BatchSize = Inr fetched"
    and "length fetched < BatchSize" and "fetched \<noteq> []"
    and "inj_on Room_ID (set fetched)"
    and "sendInitialData_loop env (Suc fuel) maxTS roomCount sent = Some (Sent_initial_rooms n, out)"
  shows "\<exists>p. out = sent @ [p] \<and> Room_ID (last fetched) \<notin> fst ` set p"
proof -
  from assms(1,2,5) obtain m p where
    c: "collect_rooms env (SortingTimestamp (last fetched)) fetched (maxTS, []) = Inr (m, p)"
    and out: "out = sent @ [p]"
    by (auto split: sum.splits option.splits if_splits)
  have "Room_ID (last fetched) \<notin> Room_ID ` {r \<in> set fetched. SortingTimestamp r \<noteq> SortingTimestamp (last fetched)}"
  proof
    assume "Room_ID (last fetched) \<in> Room_ID ` {r \<in> set fetched. SortingTimestamp r \<noteq> SortingTimestamp (last fetched)}"
    then obtain r where r: "r \<in> set fetched" "SortingTimestamp r \<noteq> SortingTimestamp (last fetched)"
      "Room_ID r = Room_ID (last fetched)" by auto
    with assms(3,4) have "r = last fetched" by (auto dest: inj_onD)
    with r(2) show False by simp
  qed
  with collect_rooms_keys[OF c] out show ?thesis by auto
qed

lemma sendInitialData_hundred_rooms_never_returns:
  "sendInitialData (stored_rooms_env hundred_rooms) fuel 5000 = None"
proof -
  let ?l = "take 100 (rev (sort_key SortingTimestamp (filter (\<lambda>r. SortingTimestamp r < 5000 + 1 * Hour) hundred_rooms)))"
  have len: "length hundred_rooms = 100"
    by (simp only: hundred_rooms_def length_map length_upt diff_zero)
  have all: "\<forall>r\<in>set hundred_rooms. SortingTimestamp r = 1000"
    unfolding hundred_rooms_def set_map by (auto simp: stored_room_def)
  then have "filter (\<lambda>r. SortingTimestamp r < 5000 + 1 * Hour) hundred_rooms = hundred_rooms"
    by (simp add: Hour_def filter_id_conv)
  then have l: "?l = take 100 (rev (sort_key SortingTimestamp hundred_rooms))" by (simp only:)
  have a: "length ?l = BatchSize" unfolding l by (simp add: len BatchSize_def)
  have b: "\<forall>r\<in>set ?l. SortingTimestamp r = 1000"
    unfolding l using all by (auto dest: in_set_takeD)
  have c: "GetBySortTS (stored_rooms_env hundred_rooms) (5000 + 1 * Hour) BatchSize = Inr ?l"
    by (simp add: stored_rooms_env_def stored_GetBySortTS_def BatchSize_def)
  have d: "\<And>p. Marshal (stored_rooms_env hundred_rooms) p = None"
    and e: "\<And>i. writeCmd (stored_rooms_env hundred_rooms) i = None"
    by (simp_all add: stored_rooms_env_def)
  show ?thesis
    unfolding sendInitialData_def by (rule stuck_batch[OF c a b d e])
qed

subsection \<open>Claim about \<^verbatim>\<open>sendInitialData\<close>\<close>

text \<open>
  Claim C8 at inputs where the code departs from it. The last batch is one that holds
  fewer than a hundred rooms; the loop over its rooms stops at the first room that has
  the timestamp of the last one, and the function ends, so the rooms with the lowest
  timestamp are never sent. With one stored room the only payload is empty; with three
  rooms the oldest, \<^verbatim>\<open>!a\<close>, is missing. The logged room count includes the rooms left out.
\<close>

theorem sendInitialData_omits_oldest_rooms:
  "sendInitialData (stored_rooms_env [stored_room ''!a'' 1000]) 3 5000 = Some (Sent_initial_rooms 1, [[]])
   \<and> sendInitialData (stored_rooms_env [stored_room ''!a'' 1000, stored_room ''!b'' 2000, stored_room ''!c'' 3000]) 3 5000
       = Some (Sent_initial_rooms 3,
           [[(''!c'', \<lparr>Meta = stored_room ''!c'' 3000, SyncRoom_Events = []\<rparr>),
             (''!b'', \<lparr>Meta = stored_room ''!b'' 2000, SyncRoom_Events = []\<rparr>)]])"
  by (simp add: initial_data_defs numeral_3_eq_3)

section \<open>Properties of the push dispatcher\<close>











subsection \<open>Claim about the full queue\<close>



section \<open>Properties of the auth token\<close>

lemma Split_none: "c \<notin> set xs \<Longrightarrow> strings_Split c xs = [xs]"
  by (induction xs) auto

lemma Split_one: "c \<notin> set xs \<Longrightarrow> c \<notin> set ys \<Longrightarrow> strings_Split c (xs @ c # ys) = [xs, ys]"
  by (induction xs) (auto simp: Split_none)

lemma validateAuth_iff:
  "validateAuth L cfg t token \<longleftrightarrow>
     length token \<le> 100 \<and>
     (\<exists>a b raw td. strings_Split CHR ''.'' token = [a, b]
        \<and> base64_DecodeString L a = Some raw
        \<and> base64_DecodeString L b = Some (hmac_sha256 L (Web_TokenKey cfg) raw)
        \<and> json_Unmarshal L raw = Some td
        \<and> Username td = Web_Username cfg \<and> t < Expiry td)"
proof (cases "\<exists>a b. strings_Split CHR ''.'' token = [a, b]")
  case True
  then obtain a b where ab: "strings_Split CHR ''.'' token = [a, b]" by blast
  show ?thesis
    unfolding validateAuth_def ab Let_def
    by (auto split: option.splits)
next
  case False
  have "length (strings_Split CHR ''.'' token) \<noteq> 2"
  proof
    assume "length (strings_Split CHR ''.'' token) = 2"
    then obtain a b where "strings_Split CHR ''.'' token = [a, b]"
      by (cases "strings_Split CHR ''.'' token"; cases "tl (strings_Split CHR ''.'' token)") auto
    with False show False by blast
  qed
  with False show ?thesis
    by (auto simp: validateAuth_def Let_def)
qed

subsection \<open>Claim about the round trip of the token\<close>

text \<open>
  Claim C10. Take any user name, token key and time \<open>now\<close>, and the token that
  \<^verbatim>\<open>generateToken\<close> makes. Suppose the libraries behave on this token as they are meant to:
  base64 decodes what it encoded, for the JSON text and for the checksum, and writes no
  dot; JSON reads back the user name and an expiry \<open>embedded\<close>. If the token is at most
  100 bytes long and the time of validation is before the expiry embedded in it,
  \<^verbatim>\<open>validateAuth\<close> accepts the token. Moreover \<^verbatim>\<open>validateAuth\<close> accepts a token exactly when it
  is at most 100 bytes long, splits at dots into exactly two parts that base64 decodes,
  the second being the HMAC of the first under the configured key, and the first being
  JSON with the configured user name and an expiry after the time of validation.
\<close>

theorem validateAuth_accepts_generated_token:
  assumes b64_data: "base64_DecodeString L (base64_EncodeToString L (json_Marshal L \<lparr>Username = Web_Username cfg, Expiry = now + 7 * 24 * Hour\<rparr>))
        = Some (json_Marshal L \<lparr>Username = Web_Username cfg, Expiry = now + 7 * 24 * Hour\<rparr>)"
    and b64_sum: "base64_DecodeString L (base64_EncodeToString L (hmac_sha256 L (Web_TokenKey cfg) (json_Marshal L \<lparr>Username = Web_Username cfg, Expiry = now + 7 * 24 * Hour\<rparr>)))
        = Some (hmac_sha256 L (Web_TokenKey cfg) (json_Marshal L \<lparr>Username = Web_Username cfg, Expiry = now + 7 * 24 * Hour\<rparr>))"
    and nodot_data: "CHR ''.'' \<notin> set (base64_EncodeToString L (json_Marshal L \<lparr>Username = Web_Username cfg, Expiry = now + 7 * 24 * Hour\<rparr>))"
    and nodot_sum: "CHR ''.'' \<notin> set (base64_EncodeToString L (hmac_sha256 L (Web_TokenKey cfg) (json_Marshal L \<lparr>Username = Web_Username cfg, Expiry = now + 7 * 24 * Hour\<rparr>)))"
    and json: "json_Unmarshal L (json_Marshal L \<lparr>Username = Web_Username cfg, Expiry = now + 7 * 24 * Hour\<rparr>)
        = Some \<lparr>Username = Web_Username cfg, Expiry = embedded\<rparr>"
    and len: "length (fst (generateToken L cfg now)) \<le> 100"
    and before: "now' < embedded"
  shows "validateAuth L cfg now' (fst (generateToken L cfg now))
    \<and> (\<forall>t token. validateAuth L cfg t token \<longleftrightarrow>
          length token \<le> 100 \<and>
          (\<exists>a b raw td. strings_Split CHR ''.'' token = [a, b]
             \<and> base64_DecodeString L a = Some raw
             \<and> base64_DecodeString L b = Some (hmac_sha256 L (Web_TokenKey cfg) raw)
             \<and> json_Unmarshal L raw = Some td
             \<and> Username td = Web_Username cfg \<and> t < Expiry td))"
proof -
  let ?data = "json_Marshal L \<lparr>Username = Web_Username cfg, Expiry = now + 7 * 24 * Hour\<rparr>"
  let ?sum = "hmac_sha256 L (Web_TokenKey cfg) ?data"
  have tok: "fst (generateToken L cfg now) = base64_EncodeToString L ?data @ CHR ''.'' # base64_EncodeToString L ?sum"
    and exp: "snd (generateToken L cfg now) = now + 7 * 24 * Hour"
    by (simp_all add: generateToken_def Let_def)
  have split: "strings_Split CHR ''.'' (fst (generateToken L cfg now))
      = [base64_EncodeToString L ?data, base64_EncodeToString L ?sum]"
    unfolding tok using nodot_data nodot_sum by (rule Split_one)
  have "validateAuth L cfg now' (fst (generateToken L cfg now))"
    unfolding validateAuth_def split Let_def
    using len before b64_data b64_sum json by simp
  then show ?thesis using validateAuth_iff by blast
qed

text \<open>
  User \<^verbatim>\<open>tulir\<close>, a token made at 1.5 s and checked at 2 s, with the stand-ins for the
  libraries.
\<close>

theorem validateAuth_accepts_generated_token_witness:
  "validateAuth toy_libraries \<lparr>Web_Username = ''tulir'', Web_TokenKey = ''se.cret''\<rparr> 2000
     (fst (generateToken toy_libraries \<lparr>Web_Username = ''tulir'', Web_TokenKey = ''se.cret''\<rparr> 1500))
   \<and> fst (generateToken toy_libraries \<lparr>Web_Username = ''tulir'', Web_TokenKey = ''se.cret''\<rparr> 1500)
        = ''tulir:604801.108406:r''"
proof -
  let ?L = toy_libraries
  let ?cfg = "\<lparr>Web_Username = ''tulir'', Web_TokenKey = ''se.cret''\<rparr>"
  have data: "json_Marshal ?L \<lparr>Username = ''tulir'', Expiry = 604801500\<rparr> = ''tulir:604801''"
    by (simp add: toy_libraries_def toy_Marshal_def digit_char_def)
  have sum: "hmac_sha256 ?L ''se.cret'' ''tulir:604801'' = ''108406:r''"
    by (simp add: toy_libraries_def toy_mac_def)
  have enc: "base64_EncodeToString ?L ''tulir:604801'' = ''tulir:604801''"
    "base64_EncodeToString ?L ''108406:r'' = ''108406:r''"
    by (simp_all add: toy_libraries_def escape_encode_def)
  have dec: "base64_DecodeString ?L ''tulir:604801'' = Some ''tulir:604801''"
    "base64_DecodeString ?L ''108406:r'' = Some ''108406:r''"
    by (simp_all add: toy_libraries_def)
  have json: "json_Unmarshal ?L ''tulir:604801'' = Some \<lparr>Username = ''tulir'', Expiry = 604801000\<rparr>"
    by (simp add: toy_libraries_def toy_Unmarshal_def digit_value_def)
  have tok: "fst (generateToken ?L ?cfg 1500) = ''tulir:604801.108406:r''"
    and exp: "snd (generateToken ?L ?cfg 1500) = 604801500"
    by (simp_all add: generateToken_def Let_def Hour_def data sum enc)
  have len: "length (fst (generateToken ?L ?cfg 1500)) \<le> 100"
    unfolding tok by simp
  have "validateAuth ?L ?cfg 2000 (fst (generateToken ?L ?cfg 1500))"
    by (rule conjunct1[OF validateAuth_accepts_generated_token[of ?L ?cfg 1500 604801000 2000]])
       (simp_all add: Hour_def data sum enc dec json tok)
  with tok show ?thesis by simp
qed

end
